theory Spec2Isabelle
  imports Main "HOL-Library.Sublist" "HOL-Library.Multiset"
begin

section \<open>Strings, errors and library functions\<close>

text \<open>
  A Python \<^verbatim>\<open>str\<close> is a sequence of Unicode code points and \<^verbatim>\<open>len\<close> counts code
  points, so a string is a list of code points. The characters the program names are
  written by code point: U+5F53 U+65F6 (the time clause markers), U+FF0C (the full-width
  comma), U+5C3D U+7BA1, U+867D U+7136, U+4F46 U+662F, U+7136 U+800C (the words of the
  patterns and the two connectors) and U+3002, U+FF01, U+FF1F (the terminal marks).
\<close>

type_synonym ustr = "nat list"

datatype error = IndexError

definition ebind :: "error + 'a \<Rightarrow> ('a \<Rightarrow> error + 'b) \<Rightarrow> error + 'b" where
  "ebind m f = (case m of Inl e \<Rightarrow> Inl e | Inr x \<Rightarrow> f x)"

text \<open>\<^verbatim>\<open>xs[0]\<close> raises IndexError on the empty sequence.\<close>

definition first :: "'a list \<Rightarrow> error + 'a" where
  "first xs = (case xs of [] \<Rightarrow> Inl IndexError | x # _ \<Rightarrow> Inr x)"

text \<open>
  The code points for which \<^verbatim>\<open>str.isspace\<close> holds; \<^verbatim>\<open>str.strip()\<close> and the class
  \<^verbatim>\<open>\s\<close> of a \<^verbatim>\<open>str\<close> pattern use the same set.
\<close>

definition isspace :: "nat \<Rightarrow> bool" where
  "isspace c \<longleftrightarrow>
     (0x09 \<le> c \<and> c \<le> 0x0D) \<or> (0x1C \<le> c \<and> c \<le> 0x20) \<or> c = 0x85 \<or> c = 0xA0 \<or>
     c = 0x1680 \<or> (0x2000 \<le> c \<and> c \<le> 0x200A) \<or> c = 0x2028 \<or> c = 0x2029 \<or>
     c = 0x202F \<or> c = 0x205F \<or> c = 0x3000"

definition strip :: "ustr \<Rightarrow> ustr" where
  "strip s = rev (dropWhile isspace (rev (dropWhile isspace s)))"

text \<open>\<^verbatim>\<open>text.startswith(orig, i)\<close>: false when \<open>i\<close> is beyond the end, also for an empty \<open>orig\<close>.\<close>

definition startswith :: "ustr \<Rightarrow> ustr \<Rightarrow> nat \<Rightarrow> bool" where
  "startswith text orig i \<longleftrightarrow> i \<le> length text \<and> prefix orig (drop i text)"

text \<open>\<^verbatim>\<open>text.split('\n')\<close> and \<^verbatim>\<open>'\n'.join(ps)\<close>.\<close>

fun split_nl :: "ustr \<Rightarrow> ustr list" where
  "split_nl [] = [[]]"
| "split_nl (c # cs) =
     (if c = 10 then [] # split_nl cs
      else (case split_nl cs of [] \<Rightarrow> [[c]] | p # ps \<Rightarrow> (c # p) # ps))"

fun join_nl :: "ustr list \<Rightarrow> ustr" where
  "join_nl [] = []"
| "join_nl [p] = p"
| "join_nl (p # q # ps) = p @ 10 # join_nl (q # ps)"

text \<open>
  \<^verbatim>\<open>re.split(r'\s+', line, 1)\<close>: one cut at the first run of white space, or the line
  alone when it has none.
\<close>

definition re_split_ws1 :: "ustr \<Rightarrow> ustr list" where
  "re_split_ws1 line =
     (if \<exists>c \<in> set line. isspace c
      then [takeWhile (\<lambda>c. \<not> isspace c) line,
            dropWhile isspace (dropWhile (\<lambda>c. \<not> isspace c) line)]
      else [line])"

text \<open>
  \<^verbatim>\<open>re.split(r'([...])', para)\<close> over the three terminal marks, with the capturing group:
  the pieces of text and the marks alternate, starting and ending with a piece of text
  (which may be empty).
\<close>

definition marks :: "ustr list" where
  "marks = [[0x3002], [0xFF01], [0xFF1F]]"

definition is_mark :: "nat \<Rightarrow> bool" where
  "is_mark c \<longleftrightarrow> c = 0x3002 \<or> c = 0xFF01 \<or> c = 0xFF1F"

fun re_split_marks :: "ustr \<Rightarrow> ustr list" where
  "re_split_marks [] = [[]]"
| "re_split_marks (c # cs) =
     (if is_mark c then [] # [c] # re_split_marks cs
      else (case re_split_marks cs of [] \<Rightarrow> [[c]] | s # ss \<Rightarrow> (c # s) # ss))"

subsection \<open>Regular expressions as Python's backtracking matcher runs them\<close>

text \<open>
  The fragment of \<^verbatim>\<open>re\<close> that the clause pattern uses. \<open>rmatch r s k\<close> matches \<open>r\<close> at the
  start of \<open>s\<close> and hands the rest of the string to the continuation \<open>k\<close>; the
  alternatives are tried in the matcher's order, so the first success is the match Python
  reports. \<open>Dot\<close> is \<^verbatim>\<open>.\<close> without DOTALL (anything but a line feed), \<open>Opt\<close> is the greedy
  \<^verbatim>\<open>?\<close> and \<open>LazyStar\<close> is \<^verbatim>\<open>*?\<close>, which tries to stop before it tries one more
  repetition.
\<close>

datatype regex = Lit nat | Dot | Seq regex regex | Alt regex regex | Opt regex | LazyStar regex

fun rmatch :: "regex \<Rightarrow> ustr \<Rightarrow> (ustr \<Rightarrow> ustr option) \<Rightarrow> ustr option" where
  "rmatch (Lit c) s k = (case s of [] \<Rightarrow> None | x # xs \<Rightarrow> if x = c then k xs else None)"
| "rmatch Dot s k = (case s of [] \<Rightarrow> None | x # xs \<Rightarrow> if x \<noteq> 10 then k xs else None)"
| "rmatch (Seq a b) s k = rmatch a s (\<lambda>s'. rmatch b s' k)"
| "rmatch (Alt a b) s k = (case rmatch a s k of Some r \<Rightarrow> Some r | None \<Rightarrow> rmatch b s k)"
| "rmatch (Opt a) s k = (case rmatch a s k of Some r \<Rightarrow> Some r | None \<Rightarrow> k s)"
| "rmatch (LazyStar a) s k =
     (case k s of
        Some r \<Rightarrow> Some r
      | None \<Rightarrow> rmatch a s (\<lambda>s'. if length s' < length s then rmatch (LazyStar a) s' k else None))"

text \<open>
  \<^verbatim>\<open>re.sub(r, '', s)\<close>: scan from the left; where the pattern matches a non-empty span,
  drop the span and go on after it; otherwise keep the character and go on with the next.
  (An empty match replaced by the empty string changes nothing.)
\<close>

function re_sub_empty :: "regex \<Rightarrow> ustr \<Rightarrow> ustr" where
  "re_sub_empty r [] = []"
| "re_sub_empty r (x # xs) =
     (case rmatch r (x # xs) Some of
        None \<Rightarrow> x # re_sub_empty r xs
      | Some rest \<Rightarrow>
          if length rest < length (x # xs) then re_sub_empty r rest
          else x # re_sub_empty r xs)"
  by pat_completeness auto
termination
  by (relation "measure (\<lambda>(r, s). length s)") auto

section \<open>The processor\<close>

text \<open>
  \<^verbatim>\<open>self.synonyms\<close> is a \<^verbatim>\<open>defaultdict(list)\<close>: the keys in insertion order, each with
  the list of its replacements.
\<close>

type_synonym syn_table = "(ustr \<times> ustr list) list"

text \<open>
  jieba is an external library: \<^verbatim>\<open>jieba.lcut\<close> and \<^verbatim>\<open>jieba.posseg.cut\<close> are parameters
  of the model. A tagged token is the pair of the word and its flag.
\<close>

record jieba =
  lcut :: "ustr \<Rightarrow> ustr list"
  cut :: "ustr \<Rightarrow> (ustr \<times> string) list"

subsection \<open>\<^verbatim>\<open>load_synonyms\<close> and \<^verbatim>\<open>__init__\<close>\<close>

text \<open>\<^verbatim>\<open>self.synonyms[orig].append(replace)\<close>\<close>

fun append_synonym :: "syn_table \<Rightarrow> ustr \<Rightarrow> ustr \<Rightarrow> syn_table" where
  "append_synonym [] orig replace = [(orig, [replace])]"
| "append_synonym ((k, vs) # rest) orig replace =
     (if k = orig then (k, vs @ [replace]) # rest
      else (k, vs) # append_synonym rest orig replace)"

text \<open>The body of the loop over the lines of the file.\<close>

definition load_line :: "syn_table \<Rightarrow> ustr \<Rightarrow> syn_table" where
  "load_line syn raw =
     (let line = strip raw in
      if line = [] then syn
      else (case re_split_ws1 line of
              [orig, replace] \<Rightarrow> append_synonym syn orig replace
            | _ \<Rightarrow> syn))"

text \<open>
  The file as the program sees it: \<^verbatim>\<open>open\<close> raises, or iterating the file yields its
  lines one by one and may raise in between (a read error, bytes that are not UTF-8).
\<close>

datatype chunk = Line ustr | ReadError

datatype source = OpenError | Opened "chunk list"

text \<open>
  The body of the \<^verbatim>\<open>try\<close>: the table as it is when the body ends, and whether it ended
  by an exception.
\<close>

fun read_lines :: "syn_table \<Rightarrow> chunk list \<Rightarrow> syn_table \<times> bool" where
  "read_lines syn [] = (syn, False)"
| "read_lines syn (Line l # rest) = read_lines (load_line syn l) rest"
| "read_lines syn (ReadError # rest) = (syn, True)"

text \<open>
  \<^verbatim>\<open>load_synonyms\<close>: the handler catches every exception and shows an error dialog; the
  second component tells whether the dialog was shown.
\<close>

definition load_synonyms :: "syn_table \<Rightarrow> source \<Rightarrow> syn_table \<times> bool" where
  "load_synonyms syn src =
     (case src of OpenError \<Rightarrow> (syn, True) | Opened chunks \<Rightarrow> read_lines syn chunks)"

record processor =
  synonyms :: syn_table
  synonym_freq :: int

text \<open>\<^verbatim>\<open>__init__\<close>: the new processor, and whether the error dialog was shown.\<close>

definition init :: "source \<Rightarrow> int \<Rightarrow> processor \<times> bool" where
  "init synonym_path freq =
     (let (syn, shown) = load_synonyms [] synonym_path
      in (\<lparr>synonyms = syn, synonym_freq = freq\<rparr>, shown))"

subsection \<open>\<^verbatim>\<open>_condense_sentence\<close>\<close>

text \<open>The pattern of line 58, alternative by alternative.\<close>

definition clause_pattern :: regex where
  "clause_pattern =
     Alt (Seq (Lit 0x5F53) (Seq (LazyStar Dot) (Seq (Lit 0x65F6) (Opt (Lit 0xFF0C)))))
    (Alt (Seq (Lit 0x5C3D) (Seq (Lit 0x7BA1) (Seq (LazyStar Dot) (Opt (Lit 0xFF0C)))))
         (Seq (Lit 0x867D) (Seq (Lit 0x7136) (Seq (LazyStar Dot)
            (Seq (Lit 0x4F46) (Lit 0x662F))))))"

definition clause_strip :: "ustr \<Rightarrow> ustr" where
  "clause_strip sentence = re_sub_empty clause_pattern sentence"

definition connectors :: "ustr list" where
  "connectors = [[0x4F46, 0x662F], [0x7136, 0x800C]]"

text \<open>The first loop: the words that are kept. \<^verbatim>\<open>pos[0]\<close> raises on an empty flag.\<close>

fun select_kept :: "(ustr \<times> string) list \<Rightarrow> ustr list \<Rightarrow> error + ustr list" where
  "select_kept [] kept_words = Inr kept_words"
| "select_kept ((word, pos) # rest) kept_words =
     ebind (first pos) (\<lambda>p0.
       if [p0] \<in> set [''n'', ''v'', ''a''] \<and> length word > 1
       then select_kept rest (kept_words @ [word])
       else if word \<in> set connectors then select_kept rest (kept_words @ [word])
       else select_kept rest kept_words)"

text \<open>The second loop, over the indices \<^verbatim>\<open>range(len(kept_words))\<close>.\<close>

fun dedup_loop :: "ustr list \<Rightarrow> nat list \<Rightarrow> ustr list \<Rightarrow> ustr list" where
  "dedup_loop kept_words [] condensed = condensed"
| "dedup_loop kept_words (i # is) condensed =
     (if i > 0 \<and> kept_words ! (i - 1) \<in> set connectors
      then dedup_loop kept_words is (condensed @ [kept_words ! i])
      else if kept_words ! i \<notin> set condensed
      then dedup_loop kept_words is (condensed @ [kept_words ! i])
      else dedup_loop kept_words is condensed)"

text \<open>One iteration of that loop, as a function of the list built so far.\<close>

definition dedup_step :: "ustr list \<Rightarrow> nat \<Rightarrow> ustr list \<Rightarrow> ustr list" where
  "dedup_step kept_words i condensed =
     (if i > 0 \<and> kept_words ! (i - 1) \<in> set connectors then condensed @ [kept_words ! i]
      else if kept_words ! i \<notin> set condensed then condensed @ [kept_words ! i]
      else condensed)"

definition condensed_tokens :: "ustr list \<Rightarrow> ustr list" where
  "condensed_tokens kept_words = dedup_loop kept_words [0 ..< length kept_words] []"

text \<open>Lines 66 to 74: from the kept words to the condensed sentence.\<close>

definition build_condensed :: "ustr list \<Rightarrow> ustr" where
  "build_condensed kept_words =
     (if kept_words = [] then [] else concat (condensed_tokens kept_words))"

definition condense_sentence :: "'a jieba_scheme \<Rightarrow> ustr \<Rightarrow> error + ustr" where
  "condense_sentence jb sentence =
     ebind (select_kept (cut jb (clause_strip sentence)) [])
       (\<lambda>kept_words. Inr (build_condensed kept_words))"

subsection \<open>\<^verbatim>\<open>_replace_words\<close>\<close>

text \<open>
  \<^verbatim>\<open>sorted(self.synonyms.keys(), key=len, reverse=True)\<close>: longest first; the sort is
  stable, so keys of one length stay in insertion order.
\<close>

definition sorted_keys :: "syn_table \<Rightarrow> ustr list" where
  "sorted_keys syn = sort_key (\<lambda>k. - int (length k)) (map fst syn)"

text \<open>\<^verbatim>\<open>self.synonyms[k][0]\<close> for a key that is present.\<close>

definition first_replacement :: "syn_table \<Rightarrow> ustr \<Rightarrow> error + ustr" where
  "first_replacement syn k = (case map_of syn k of None \<Rightarrow> Inl IndexError | Some vs \<Rightarrow> first vs)"

fun replace_loop :: "syn_table \<Rightarrow> ustr \<Rightarrow> ustr list \<Rightarrow> ustr list \<Rightarrow> nat \<Rightarrow> error + ustr" where
  "replace_loop syn text [] replaced current_index = Inr (concat replaced)"
| "replace_loop syn text (word # words) replaced current_index =
     (if word \<in> fst ` set syn then
        (case find (\<lambda>orig. startswith text orig current_index) (sorted_keys syn) of
           Some orig \<Rightarrow>
             ebind (first_replacement syn orig) (\<lambda>r.
               replace_loop syn text words (replaced @ [r]) (current_index + length orig))
         | None \<Rightarrow>
             ebind (first_replacement syn word) (\<lambda>r.
               replace_loop syn text words (replaced @ [r]) (current_index + length word)))
      else replace_loop syn text words (replaced @ [word]) (current_index + length word))"

definition replace_words :: "syn_table \<Rightarrow> 'a jieba_scheme \<Rightarrow> ustr \<Rightarrow> error + ustr" where
  "replace_words syn jb text = replace_loop syn text (lcut jb text) [] 0"

subsection \<open>\<^verbatim>\<open>process\<close>\<close>

text \<open>
  The loop over the pieces of one paragraph; the state is the buffer, the new sentences
  and the contrast pairs.
\<close>

fun sentence_loop ::
  "syn_table \<Rightarrow> 'a jieba_scheme \<Rightarrow> ustr list \<Rightarrow> ustr list \<Rightarrow> ustr list \<Rightarrow> (ustr \<times> ustr) list
     \<Rightarrow> error + (ustr list \<times> (ustr \<times> ustr) list)" where
  "sentence_loop syn jb [] buffer new_sentences contrast_pairs =
     Inr (new_sentences, contrast_pairs)"
| "sentence_loop syn jb (seg # segs) buffer new_sentences contrast_pairs =
     (if seg \<in> set marks then
        (if buffer \<noteq> [] then
           (let orig_sentence = strip (concat buffer) in
            ebind (condense_sentence jb orig_sentence) (\<lambda>condensed.
            ebind (replace_words syn jb condensed) (\<lambda>replaced.
              sentence_loop syn jb segs [] (new_sentences @ [replaced @ seg])
                (if orig_sentence \<noteq> [] \<and> replaced \<noteq> []
                 then contrast_pairs @ [(orig_sentence @ seg, replaced @ seg)]
                 else contrast_pairs))))
         else sentence_loop syn jb segs buffer new_sentences contrast_pairs)
      else sentence_loop syn jb segs (buffer @ [seg]) new_sentences contrast_pairs)"

text \<open>The loop over the paragraphs.\<close>

fun paragraph_loop ::
  "syn_table \<Rightarrow> 'a jieba_scheme \<Rightarrow> ustr list \<Rightarrow> ustr list \<Rightarrow> (ustr \<times> ustr) list
     \<Rightarrow> error + (ustr list \<times> (ustr \<times> ustr) list)" where
  "paragraph_loop syn jb [] processed_paragraphs contrast_pairs =
     Inr (processed_paragraphs, contrast_pairs)"
| "paragraph_loop syn jb (para # paras) processed_paragraphs contrast_pairs =
     (if strip para = [] then paragraph_loop syn jb paras (processed_paragraphs @ [[]]) contrast_pairs
      else
        ebind (sentence_loop syn jb (re_split_marks para) [] [] contrast_pairs)
          (\<lambda>(new_sentences, contrast_pairs').
             paragraph_loop syn jb paras (processed_paragraphs @ [concat new_sentences])
               contrast_pairs'))"

datatype result = Text ustr | TextPairs ustr "(ustr \<times> ustr) list"

definition process :: "syn_table \<Rightarrow> 'a jieba_scheme \<Rightarrow> ustr \<Rightarrow> bool \<Rightarrow> error + result" where
  "process syn jb text contrast =
     ebind (paragraph_loop syn jb (split_nl text) [] [])
       (\<lambda>(processed_paragraphs, contrast_pairs).
          let processed_text = join_nl processed_paragraphs
          in Inr (if contrast then TextPairs processed_text contrast_pairs
                  else Text processed_text))"

subsection \<open>Notions for the statements about \<^verbatim>\<open>process\<close>\<close>

text \<open>
  The sentences of a paragraph as the data model of the specification has them: each
  maximal run of text that a terminal mark ends, with its mark; the text after the last
  mark belongs to no sentence.
\<close>

fun sentences :: "ustr \<Rightarrow> (ustr \<times> nat) list" where
  "sentences [] = []"
| "sentences (c # cs) =
     (if is_mark c then ([], c) # sentences cs
      else (case sentences cs of [] \<Rightarrow> [] | (t, m) # rest \<Rightarrow> (c # t, m) # rest))"

text \<open>
  What lines 129 and 130 do with one trimmed sentence, and the substituted text of a
  sentence (empty where the code would raise).
\<close>

definition transform :: "syn_table \<Rightarrow> 'a jieba_scheme \<Rightarrow> ustr \<Rightarrow> error + ustr" where
  "transform syn jb orig_sentence =
     ebind (condense_sentence jb orig_sentence) (\<lambda>condensed. replace_words syn jb condensed)"

definition substituted :: "syn_table \<Rightarrow> 'a jieba_scheme \<Rightarrow> ustr \<Rightarrow> ustr" where
  "substituted syn jb t = (case transform syn jb (strip t) of Inl e \<Rightarrow> [] | Inr r \<Rightarrow> r)"

text \<open>
  The two loops of \<^verbatim>\<open>process\<close> read over sentences instead of the pieces of
  \<^verbatim>\<open>re.split\<close>; they are proved equal to \<open>sentence_loop\<close> and \<open>paragraph_loop\<close> below.
\<close>

fun emit ::
  "syn_table \<Rightarrow> 'a jieba_scheme \<Rightarrow> (ustr \<times> nat) list \<Rightarrow> ustr list \<Rightarrow> (ustr \<times> ustr) list
     \<Rightarrow> error + (ustr list \<times> (ustr \<times> ustr) list)" where
  "emit syn jb [] new_sentences contrast_pairs = Inr (new_sentences, contrast_pairs)"
| "emit syn jb ((t, m) # rest) new_sentences contrast_pairs =
     ebind (transform syn jb (strip t)) (\<lambda>replaced.
       emit syn jb rest (new_sentences @ [replaced @ [m]])
         (if strip t \<noteq> [] \<and> replaced \<noteq> []
          then contrast_pairs @ [(strip t @ [m], replaced @ [m])]
          else contrast_pairs))"

fun emit_paragraphs ::
  "syn_table \<Rightarrow> 'a jieba_scheme \<Rightarrow> (ustr \<times> nat) list list \<Rightarrow> ustr list \<Rightarrow> (ustr \<times> ustr) list
     \<Rightarrow> error + (ustr list \<times> (ustr \<times> ustr) list)" where
  "emit_paragraphs syn jb [] processed_paragraphs contrast_pairs =
     Inr (processed_paragraphs, contrast_pairs)"
| "emit_paragraphs syn jb (ss # rest) processed_paragraphs contrast_pairs =
     ebind (emit syn jb ss [] contrast_pairs) (\<lambda>(new_sentences, contrast_pairs').
       emit_paragraphs syn jb rest (processed_paragraphs @ [concat new_sentences]) contrast_pairs')"

text \<open>The number of terminal marks in a string, and the text that \<^verbatim>\<open>process\<close> returns.\<close>

definition count_marks :: "ustr \<Rightarrow> nat" where
  "count_marks s = length (filter is_mark s)"

fun processed_text :: "result \<Rightarrow> ustr" where
  "processed_text (Text s) = s"
| "processed_text (TextPairs s pairs) = s"

section \<open>The condenser's two loops\<close>

lemma dedup_loop_step: "dedup_loop kept (i # js) acc = dedup_loop kept js (dedup_step kept i acc)"
  by (simp add: dedup_step_def)

lemma dedup_loop_snoc: "dedup_loop kept (js @ [i]) acc = dedup_step kept i (dedup_loop kept js acc)"
proof (induction js arbitrary: acc)
  case Nil
  show ?case by (simp add: dedup_step_def)
next
  case (Cons j js)
  have "dedup_loop kept ((j # js) @ [i]) acc = dedup_loop kept (js @ [i]) (dedup_step kept j acc)"
    unfolding append_Cons by (rule dedup_loop_step)
  also have "\<dots> = dedup_step kept i (dedup_loop kept js (dedup_step kept j acc))"
    by (rule Cons.IH)
  also have "dedup_loop kept js (dedup_step kept j acc) = dedup_loop kept (j # js) acc"
    by (rule dedup_loop_step [symmetric])
  finally show ?case .
qed

lemma dedup_step_prefix:
  "i < length pre \<Longrightarrow> dedup_step (pre @ suf) i acc = dedup_step pre i acc"
proof -
  assume i: "i < length pre"
  then have "i - 1 < length pre" by simp
  with i have "(pre @ suf) ! i = pre ! i" "(pre @ suf) ! (i - 1) = pre ! (i - 1)"
    by (simp_all only: nth_append if_True)
  then show ?thesis unfolding dedup_step_def by (simp only:)
qed

lemma dedup_loop_prefix:
  "\<forall>i \<in> set js. i < length pre \<Longrightarrow> dedup_loop (pre @ suf) js acc = dedup_loop pre js acc"
proof (induction js arbitrary: acc)
  case Nil
  then show ?case by simp
next
  case (Cons i js)
  then have i: "i < length pre" and js: "\<forall>i \<in> set js. i < length pre" by auto
  show ?case unfolding dedup_loop_step dedup_step_prefix [OF i] by (rule Cons.IH [OF js])
qed

lemma condensed_tokens_snoc:
  "condensed_tokens (pre @ [t]) =
     (if pre \<noteq> [] \<and> last pre \<in> set connectors then condensed_tokens pre @ [t]
      else if t \<notin> set (condensed_tokens pre) then condensed_tokens pre @ [t]
      else condensed_tokens pre)"
proof -
  have pre: "dedup_loop (pre @ [t]) [0 ..< length pre] [] = condensed_tokens pre"
    unfolding condensed_tokens_def by (rule dedup_loop_prefix) simp
  have l: "pre \<noteq> [] \<Longrightarrow> (pre @ [t]) ! (length pre - 1) = last pre"
    by (simp add: nth_append last_conv_nth)
  have "condensed_tokens (pre @ [t]) = dedup_loop (pre @ [t]) ([0 ..< length pre] @ [length pre]) []"
    by (simp add: condensed_tokens_def)
  also have "\<dots> = (if pre \<noteq> [] \<and> last pre \<in> set connectors then condensed_tokens pre @ [t]
      else if t \<notin> set (condensed_tokens pre) then condensed_tokens pre @ [t]
      else condensed_tokens pre)"
    unfolding dedup_loop_snoc pre dedup_step_def using l by auto
  finally show ?thesis .
qed


text \<open>
  C4. Walking the kept tokens from left to right, the output after the tokens \<open>pre\<close> is
  \<open>condensed_tokens pre\<close>. The next token \<open>t\<close> is appended when the token before it in
  the kept list is U+4F46 U+662F or U+7136 U+800C, whether or not the output has an equal
  token; any other token is appended exactly when the output so far has no equal token.
  The kept tokens (U+95EE U+9898, U+4F46 U+662F, U+95EE U+9898) give the first word, the
  connector and the first word again; the kept tokens (U+7535 U+8111, U+8FD0 U+884C,
  U+7535 U+8111) give the first two words only.
\<close>

theorem condenser_output_walk:
  "condensed_tokens [] = [] \<and>
   condensed_tokens (pre @ [t]) =
     (if pre \<noteq> [] \<and> (last pre = [0x4F46, 0x662F] \<or> last pre = [0x7136, 0x800C])
      then condensed_tokens pre @ [t]
      else if t \<in> set (condensed_tokens pre) then condensed_tokens pre
      else condensed_tokens pre @ [t]) \<and>
   build_condensed [[0x95EE, 0x9898], [0x4F46, 0x662F], [0x95EE, 0x9898]] =
     [0x95EE, 0x9898, 0x4F46, 0x662F, 0x95EE, 0x9898] \<and>
   build_condensed [[0x7535, 0x8111], [0x8FD0, 0x884C], [0x7535, 0x8111]] =
     [0x7535, 0x8111, 0x8FD0, 0x884C]"
proof -
  have a: "condensed_tokens [] = []"
    by (simp add: condensed_tokens_def)
  have b: "condensed_tokens (pre @ [t]) =
     (if pre \<noteq> [] \<and> (last pre = [0x4F46, 0x662F] \<or> last pre = [0x7136, 0x800C])
      then condensed_tokens pre @ [t]
      else if t \<in> set (condensed_tokens pre) then condensed_tokens pre
      else condensed_tokens pre @ [t])"
    unfolding condensed_tokens_snoc [of pre t] by (simp add: connectors_def)
  have c: "build_condensed [[0x95EE, 0x9898], [0x4F46, 0x662F], [0x95EE, 0x9898]] =
     [0x95EE, 0x9898, 0x4F46, 0x662F, 0x95EE, 0x9898]"
    by (simp add: build_condensed_def condensed_tokens_def connectors_def upt_rec)
  have d: "build_condensed [[0x7535, 0x8111], [0x8FD0, 0x884C], [0x7535, 0x8111]] =
     [0x7535, 0x8111, 0x8FD0, 0x884C]"
    by (simp add: build_condensed_def condensed_tokens_def connectors_def upt_rec)
  from a b c d show ?thesis by (intro conjI)
qed

text \<open>
  C10. Whether a token is appended by force depends on the token before it in the kept
  list, not in the output: after a connector in the kept list the next token \<open>t\<close> is
  appended to whatever the output is by then. In the kept tokens (U+95EE U+9898,
  U+4F46 U+662F, U+95EE U+9898, U+4F46 U+662F, U+95EE U+9898) the second connector is
  dropped as a duplicate and the third U+95EE U+9898 is appended all the same, so the
  output ends with the word twice and no connector in between.
\<close>

theorem forced_append_follows_kept_list:
  "condensed_tokens (pre @ [[0x4F46, 0x662F], t]) = condensed_tokens (pre @ [[0x4F46, 0x662F]]) @ [t] \<and>
   condensed_tokens (pre @ [[0x7136, 0x800C], t]) = condensed_tokens (pre @ [[0x7136, 0x800C]]) @ [t] \<and>
   condensed_tokens [[0x95EE, 0x9898], [0x4F46, 0x662F], [0x95EE, 0x9898], [0x4F46, 0x662F]] =
     [[0x95EE, 0x9898], [0x4F46, 0x662F], [0x95EE, 0x9898]] \<and>
   build_condensed
     [[0x95EE, 0x9898], [0x4F46, 0x662F], [0x95EE, 0x9898], [0x4F46, 0x662F], [0x95EE, 0x9898]] =
     [0x95EE, 0x9898, 0x4F46, 0x662F, 0x95EE, 0x9898, 0x95EE, 0x9898]"
proof -
  have a: "condensed_tokens (pre @ [c, t]) = condensed_tokens (pre @ [c]) @ [t]"
    if "c \<in> set connectors" for c
    using condensed_tokens_snoc [of "pre @ [c]" t] that by simp
  have b: "condensed_tokens [[0x95EE, 0x9898], [0x4F46, 0x662F], [0x95EE, 0x9898], [0x4F46, 0x662F]] =
     [[0x95EE, 0x9898], [0x4F46, 0x662F], [0x95EE, 0x9898]]"
    by (simp add: condensed_tokens_def connectors_def upt_rec)
  have c: "build_condensed
     [[0x95EE, 0x9898], [0x4F46, 0x662F], [0x95EE, 0x9898], [0x4F46, 0x662F], [0x95EE, 0x9898]] =
     [0x95EE, 0x9898, 0x4F46, 0x662F, 0x95EE, 0x9898, 0x95EE, 0x9898]"
    by (simp add: build_condensed_def condensed_tokens_def connectors_def upt_rec)
  from a [of "[0x4F46, 0x662F]"] a [of "[0x7136, 0x800C]"] b c show ?thesis
    by (simp add: connectors_def)
qed

section \<open>Selection of the kept tokens\<close>

lemma select_kept_filter:
  "\<forall>tok \<in> set tagged. snd tok \<noteq> [] \<Longrightarrow>
   select_kept tagged acc =
     Inr (acc @ map fst (filter (\<lambda>(word, pos).
        (hd pos \<in> {CHR ''n'', CHR ''v'', CHR ''a''} \<and> 2 \<le> length word) \<or>
        word = [0x4F46, 0x662F] \<or> word = [0x7136, 0x800C]) tagged))"
proof (induction tagged arbitrary: acc)
  case Nil
  show ?case by simp
next
  case (Cons tok tagged)
  obtain word pos where tok: "tok = (word, pos)" by (cases tok)
  with Cons.prems obtain p0 ps where pos: "pos = p0 # ps" by (cases pos) auto
  from Cons.prems have rest: "\<forall>tok \<in> set tagged. snd tok \<noteq> []" by simp
  show ?case
    unfolding tok pos
    by (simp add: ebind_def first_def connectors_def Cons.IH [OF rest])
qed


text \<open>
  C6. When every tagged token has a flag (jieba's flags are never empty), the first loop
  keeps a token exactly when the first character of its flag is n, v or a and the word has
  at least two characters, or the word is U+4F46 U+662F or U+7136 U+800C, whatever its
  flag and length.
\<close>

theorem kept_tokens_selection:
  "\<forall>tok \<in> set tagged. snd tok \<noteq> [] \<Longrightarrow>
   select_kept tagged [] =
     Inr (map fst (filter (\<lambda>(word, pos).
        (hd pos \<in> {CHR ''n'', CHR ''v'', CHR ''a''} \<and> 2 \<le> length word) \<or>
        word = [0x4F46, 0x662F] \<or> word = [0x7136, 0x800C]) tagged))"
  using select_kept_filter [of tagged "[]"] by simp

theorem kept_tokens_selection_witness:
  "list_all (\<lambda>tok. snd tok \<noteq> []) [([0x95EE, 0x9898], ''n''), ([0x7684], ''uj''),
       ([0x4F46, 0x662F], ''c''), ([0x5F88], ''d''), ([0x597D], ''a''), ([0x8FD0, 0x884C], ''vn'')] \<and>
   select_kept [([0x95EE, 0x9898], ''n''), ([0x7684], ''uj''), ([0x4F46, 0x662F], ''c''),
       ([0x5F88], ''d''), ([0x597D], ''a''), ([0x8FD0, 0x884C], ''vn'')] [] =
     Inr [[0x95EE, 0x9898], [0x4F46, 0x662F], [0x8FD0, 0x884C]]"
  using kept_tokens_selection
    [of "[([0x95EE, 0x9898], ''n''), ([0x7684], ''uj''), ([0x4F46, 0x662F], ''c''),
       ([0x5F88], ''d''), ([0x597D], ''a''), ([0x8FD0, 0x884C], ''vn'')]"]
  by simp

section \<open>Substitution\<close>

lemma replace_loop_untouched:
  "\<forall>w \<in> set ws. w \<notin> fst ` set syn \<Longrightarrow>
   replace_loop syn text ws replaced cur = Inr (concat (replaced @ ws))"
  by (induction ws arbitrary: replaced cur) simp_all

lemma set_sorted_keys: "set (sorted_keys syn) = fst ` set syn"
  by (simp add: sorted_keys_def)

lemma mset_sorted_keys: "mset (sorted_keys syn) = mset (map fst syn)"
  by (simp add: sorted_keys_def)

lemma sorted_keys_descending: "sorted_wrt (\<lambda>a b. length b \<le> length a) (sorted_keys syn)"
proof -
  have "sorted (map (\<lambda>k. - int (length k)) (sorted_keys syn))"
    unfolding sorted_keys_def by (rule sorted_sort_key)
  then show ?thesis by (simp add: sorted_wrt_map)
qed

lemma find_first:
  "xs = pre @ t # post \<Longrightarrow> \<forall>k \<in> set pre. \<not> P k \<Longrightarrow> P t \<Longrightarrow> find P xs = Some t"
  by (induction pre arbitrary: xs) auto

lemma find_none: "\<forall>k \<in> set xs. \<not> P k \<Longrightarrow> find P xs = None"
  by (simp add: find_None_iff)

lemma replace_loop_match:
  assumes "word \<in> fst ` set syn" "sorted_keys syn = pre @ t # post"
    "\<forall>k \<in> set pre. \<not> startswith text k cur" "startswith text t cur"
    "map_of syn t = Some (r # rs)"
  shows "replace_loop syn text (word # words) replaced cur =
           replace_loop syn text words (replaced @ [r]) (cur + length t)"
proof -
  have "find (\<lambda>orig. startswith text orig cur) (sorted_keys syn) = Some t"
    using assms(2-4) by (rule find_first)
  with assms(1,5) show ?thesis by (simp add: first_replacement_def first_def ebind_def)
qed

lemma replace_loop_fallback:
  assumes "word \<in> fst ` set syn" "\<forall>k \<in> fst ` set syn. \<not> startswith text k cur"
    "map_of syn word = Some (r # rs)"
  shows "replace_loop syn text (word # words) replaced cur =
           replace_loop syn text words (replaced @ [r]) (cur + length word)"
proof -
  have "find (\<lambda>orig. startswith text orig cur) (sorted_keys syn) = None"
    using assms(2) by (simp add: find_None_iff set_sorted_keys)
  with assms(1,3) show ?thesis by (simp add: first_replacement_def first_def ebind_def)
qed

lemma longest_match:
  assumes "sorted_keys syn = pre @ t # post" "\<forall>k \<in> set pre. \<not> startswith text k cur"
     "k \<in> fst ` set syn" "startswith text k cur"
  shows "length k \<le> length t"
proof -
  from assms(3) have "k \<in> set (pre @ t # post)" by (simp only: set_sorted_keys flip: assms(1))
  with assms(2,4) have "k = t \<or> k \<in> set post" by auto
  moreover have "\<forall>b \<in> set post. length b \<le> length t"
    using sorted_keys_descending [of syn] unfolding assms(1) by (simp add: sorted_wrt_append)
  ultimately show ?thesis by auto
qed

lemma sorted_keys_example: "sorted_keys [([0x4EBA, 0x5DE5, 0x667A, 0x80FD], [[65, 73]]), ([0x667A, 0x80FD], [[115, 109, 97, 114, 116]])] = [[0x4EBA, 0x5DE5, 0x667A, 0x80FD], [0x667A, 0x80FD]]"
  by (simp add: sorted_keys_def)

lemma concat_two:
  "concat rest = [a, b] \<Longrightarrow> w \<in> set rest \<Longrightarrow> set w \<subseteq> {a, b}"
  by (metis (no_types, lifting) UN_I set_concat set_simps subset_iff empty_set list.simps(15) subsetI)

lemma replace_words_example:
  assumes "lcut jb [0x4EBA, 0x5DE5, 0x667A, 0x80FD, 0x5F88, 0x5F3A] = [0x4EBA, 0x5DE5, 0x667A, 0x80FD] # rest"
     "concat rest = [0x5F88, 0x5F3A]"
  shows "replace_words [([0x4EBA, 0x5DE5, 0x667A, 0x80FD], [[65, 73]]), ([0x667A, 0x80FD], [[115, 109, 97, 114, 116]])] jb
      [0x4EBA, 0x5DE5, 0x667A, 0x80FD, 0x5F88, 0x5F3A] = Inr [65, 73, 0x5F88, 0x5F3A]"
proof -
  have "\<forall>w \<in> set rest. set w \<subseteq> {0x5F88, 0x5F3A}"
    using concat_two [OF assms(2)] by blast
  then have "\<forall>w \<in> set rest. w \<notin> fst ` set [([0x4EBA, 0x5DE5, 0x667A, 0x80FD], [[65, 73::nat]]), ([0x667A, 0x80FD], [[115, 109, 97, 114, 116]])]"
    by auto
  from replace_loop_untouched [OF this]
  show ?thesis
    by (simp add: replace_words_def assms sorted_keys_example startswith_def first_replacement_def first_def ebind_def)
qed


text \<open>
  C7. When the segmentation of \<open>x\<close> concatenates to \<open>x\<close>, substitution with the empty
  table returns \<open>x\<close>.
\<close>

theorem empty_table_identity:
  "concat (lcut jb x) = x \<Longrightarrow> replace_words [] jb x = Inr x"
  using replace_loop_untouched [of "lcut jb x" "[]" x "[]" 0] by (simp add: replace_words_def)

theorem empty_table_identity_witness:
  "concat (lcut \<lparr>lcut = map (\<lambda>c. [c]), cut = (\<lambda>t. [])\<rparr> [0x95EE, 0x9898, 0x5F88, 0x5F3A])
     = [0x95EE, 0x9898, 0x5F88, 0x5F3A] \<and>
   replace_words [] \<lparr>lcut = map (\<lambda>c. [c]), cut = (\<lambda>t. [])\<rparr> [0x95EE, 0x9898, 0x5F88, 0x5F3A]
     = Inr [0x95EE, 0x9898, 0x5F88, 0x5F3A]"
  using empty_table_identity
    [of "\<lparr>lcut = map (\<lambda>c. [c]), cut = (\<lambda>t. [])\<rparr>" "[0x95EE, 0x9898, 0x5F88, 0x5F3A]"]
  by simp

text \<open>
  C1. Substitution walks the tokens of the segmentation in order, with the cursor at 0 at
  the start, and returns the pieces it emitted, joined. \<open>sorted_keys\<close> is the terms of the
  table, longest first. For a token that is a key of the table, the first term \<open>t\<close> of
  that order that the text has at the cursor gives the piece, its first replacement, and
  the cursor moves on by the length of \<open>t\<close> (and \<open>t\<close> is a longest term that matches
  there); when no term matches at the cursor, the piece is the first replacement of the
  token and the cursor moves on by the length of the token. A token that is no key is
  emitted as it is, and the cursor moves on by its length. With the table of U+4EBA U+5DE5
  U+667A U+80FD to AI and U+667A U+80FD to smart, and the text U+4EBA U+5DE5 U+667A U+80FD
  U+5F88 U+5F3A segmented with the first four characters as one token, the result is AI
  followed by U+5F88 U+5F3A.
\<close>

theorem substitute_walk:
  "replace_words syn jb text = replace_loop syn text (lcut jb text) [] 0 \<and>
   replace_loop syn text [] replaced cur = Inr (concat replaced) \<and>
   (set (sorted_keys syn) = fst ` set syn \<and> mset (sorted_keys syn) = mset (map fst syn) \<and>
    sorted_wrt (\<lambda>a b. length b \<le> length a) (sorted_keys syn)) \<and>
   (word \<in> fst ` set syn \<longrightarrow> sorted_keys syn = pre @ t # post \<longrightarrow>
    (\<forall>k \<in> set pre. \<not> startswith text k cur) \<longrightarrow> startswith text t cur \<longrightarrow>
    map_of syn t = Some (r # rs) \<longrightarrow>
      replace_loop syn text (word # words) replaced cur =
        replace_loop syn text words (replaced @ [r]) (cur + length t) \<and>
      (\<forall>k \<in> fst ` set syn. startswith text k cur \<longrightarrow> length k \<le> length t)) \<and>
   (word' \<in> fst ` set syn \<longrightarrow> (\<forall>k \<in> fst ` set syn. \<not> startswith text k cur') \<longrightarrow>
    map_of syn word' = Some (r' # rs') \<longrightarrow>
      replace_loop syn text (word' # words) replaced cur' =
        replace_loop syn text words (replaced @ [r']) (cur' + length word')) \<and>
   (word'' \<notin> fst ` set syn \<longrightarrow>
      replace_loop syn text (word'' # words) replaced cur =
        replace_loop syn text words (replaced @ [word'']) (cur + length word'')) \<and>
   (lcut jb [0x4EBA, 0x5DE5, 0x667A, 0x80FD, 0x5F88, 0x5F3A] = [0x4EBA, 0x5DE5, 0x667A, 0x80FD] # rest \<longrightarrow>
    concat rest = [0x5F88, 0x5F3A] \<longrightarrow>
      replace_words
        [([0x4EBA, 0x5DE5, 0x667A, 0x80FD], [[65, 73]]), ([0x667A, 0x80FD], [[115, 109, 97, 114, 116]])]
        jb [0x4EBA, 0x5DE5, 0x667A, 0x80FD, 0x5F88, 0x5F3A] = Inr [65, 73, 0x5F88, 0x5F3A])"
proof -
  have a: "replace_words syn jb text = replace_loop syn text (lcut jb text) [] 0"
    by (simp add: replace_words_def)
  have b: "replace_loop syn text [] replaced cur = Inr (concat replaced)"
    by simp
  note c = set_sorted_keys [of syn] mset_sorted_keys [of syn] sorted_keys_descending [of syn]
  have d: "word \<in> fst ` set syn \<longrightarrow> sorted_keys syn = pre @ t # post \<longrightarrow>
    (\<forall>k \<in> set pre. \<not> startswith text k cur) \<longrightarrow> startswith text t cur \<longrightarrow>
    map_of syn t = Some (r # rs) \<longrightarrow>
      replace_loop syn text (word # words) replaced cur =
        replace_loop syn text words (replaced @ [r]) (cur + length t) \<and>
      (\<forall>k \<in> fst ` set syn. startswith text k cur \<longrightarrow> length k \<le> length t)"
    using replace_loop_match [of word syn "pre" t post "text" cur r rs words replaced]
      longest_match [of syn "pre" t post "text" cur] by blast
  have e: "word' \<in> fst ` set syn \<longrightarrow> (\<forall>k \<in> fst ` set syn. \<not> startswith text k cur') \<longrightarrow>
    map_of syn word' = Some (r' # rs') \<longrightarrow>
      replace_loop syn text (word' # words) replaced cur' =
        replace_loop syn text words (replaced @ [r']) (cur' + length word')"
    using replace_loop_fallback [of word' syn "text" cur' r' rs' words replaced] by blast
  have f: "word'' \<notin> fst ` set syn \<longrightarrow>
      replace_loop syn text (word'' # words) replaced cur =
        replace_loop syn text words (replaced @ [word'']) (cur + length word'')"
    by simp
  have g: "lcut jb [0x4EBA, 0x5DE5, 0x667A, 0x80FD, 0x5F88, 0x5F3A] = [0x4EBA, 0x5DE5, 0x667A, 0x80FD] # rest \<longrightarrow>
    concat rest = [0x5F88, 0x5F3A] \<longrightarrow>
      replace_words
        [([0x4EBA, 0x5DE5, 0x667A, 0x80FD], [[65, 73]]), ([0x667A, 0x80FD], [[115, 109, 97, 114, 116]])]
        jb [0x4EBA, 0x5DE5, 0x667A, 0x80FD, 0x5F88, 0x5F3A] = Inr [65, 73, 0x5F88, 0x5F3A]"
    using replace_words_example [of jb rest] by blast
  from a b c d e f g show ?thesis by (intro conjI)
qed

theorem substitute_walk_witness:
  "replace_loop
     [([0x4EBA, 0x5DE5, 0x667A, 0x80FD], [[65, 73]]), ([0x667A, 0x80FD], [[115, 109, 97, 114, 116]])]
     [0x4EBA, 0x5DE5, 0x667A, 0x80FD, 0x5F88, 0x5F3A]
     [[0x4EBA, 0x5DE5, 0x667A, 0x80FD], [0x5F88, 0x5F3A]] [] 0 =
   replace_loop
     [([0x4EBA, 0x5DE5, 0x667A, 0x80FD], [[65, 73]]), ([0x667A, 0x80FD], [[115, 109, 97, 114, 116]])]
     [0x4EBA, 0x5DE5, 0x667A, 0x80FD, 0x5F88, 0x5F3A]
     [[0x5F88, 0x5F3A]] [[65, 73]] 4 \<and>
   replace_loop
     [([0x4EBA, 0x5DE5, 0x667A, 0x80FD], [[65, 73]]), ([0x667A, 0x80FD], [[115, 109, 97, 114, 116]])]
     [0x4EBA, 0x5DE5, 0x667A, 0x80FD, 0x5F88, 0x5F3A]
     [[0x667A, 0x80FD], [0x5F88, 0x5F3A]] [] 4 =
   replace_loop
     [([0x4EBA, 0x5DE5, 0x667A, 0x80FD], [[65, 73]]), ([0x667A, 0x80FD], [[115, 109, 97, 114, 116]])]
     [0x4EBA, 0x5DE5, 0x667A, 0x80FD, 0x5F88, 0x5F3A]
     [[0x5F88, 0x5F3A]] [[115, 109, 97, 114, 116]] 6 \<and>
   replace_loop
     [([0x4EBA, 0x5DE5, 0x667A, 0x80FD], [[65, 73]]), ([0x667A, 0x80FD], [[115, 109, 97, 114, 116]])]
     [0x4EBA, 0x5DE5, 0x667A, 0x80FD, 0x5F88, 0x5F3A]
     [[0x5F88], [0x5F3A]] [] 0 =
   replace_loop
     [([0x4EBA, 0x5DE5, 0x667A, 0x80FD], [[65, 73]]), ([0x667A, 0x80FD], [[115, 109, 97, 114, 116]])]
     [0x4EBA, 0x5DE5, 0x667A, 0x80FD, 0x5F88, 0x5F3A]
     [[0x5F3A]] [[0x5F88]] 1 \<and>
   replace_words
     [([0x4EBA, 0x5DE5, 0x667A, 0x80FD], [[65, 73]]), ([0x667A, 0x80FD], [[115, 109, 97, 114, 116]])]
     \<lparr>lcut = (\<lambda>t. [[0x4EBA, 0x5DE5, 0x667A, 0x80FD], [0x5F88], [0x5F3A]]), cut = (\<lambda>t. [])\<rparr>
     [0x4EBA, 0x5DE5, 0x667A, 0x80FD, 0x5F88, 0x5F3A] = Inr [65, 73, 0x5F88, 0x5F3A]"
proof -
  let ?syn = "[([0x4EBA, 0x5DE5, 0x667A, 0x80FD], [[65, 73]]), ([0x667A, 0x80FD], [[115, 109, 97, 114, 116]])] :: syn_table"
  let ?text = "[0x4EBA, 0x5DE5, 0x667A, 0x80FD, 0x5F88, 0x5F3A] :: ustr"
  note w = substitute_walk [where syn = "?syn" and ?text = "?text"
      and jb = "\<lparr>lcut = (\<lambda>t. [[0x4EBA, 0x5DE5, 0x667A, 0x80FD], [0x5F88], [0x5F3A]]), cut = (\<lambda>t. [])\<rparr>"
      and rest = "[[0x5F88], [0x5F3A]]"
      and word = "[0x4EBA, 0x5DE5, 0x667A, 0x80FD]" and cur = 0 and ?pre = "[]"
      and t = "[0x4EBA, 0x5DE5, 0x667A, 0x80FD]" and post = "[[0x667A, 0x80FD]]"
      and r = "[65, 73]" and rs = "[]" and words = "[[0x5F88, 0x5F3A]]" and replaced = "[]"
      and word' = "[0x667A, 0x80FD]" and cur' = 4 and r' = "[115, 109, 97, 114, 116]" and rs' = "[]"
      and word'' = "[0x5F88]"]
  have s: "sorted_keys ?syn = [[0x4EBA, 0x5DE5, 0x667A, 0x80FD], [0x667A, 0x80FD]]"
    by (rule sorted_keys_example)
  have m0: "startswith ?text [0x4EBA, 0x5DE5, 0x667A, 0x80FD] 0"
    by (simp add: startswith_def)
  have m4: "\<forall>k \<in> fst ` set ?syn. \<not> startswith ?text k 4"
    by (simp add: startswith_def)
  from w s m0 m4 show ?thesis
    apply (intro conjI)
    subgoal by simp
    subgoal by simp
    subgoal by simp
    subgoal by simp
    done
qed

section \<open>Clause stripping\<close>

text \<open>
  In the second alternative of the pattern the lazy \<^verbatim>\<open>.*?\<close> is followed by an optional
  comma only, so it never takes a character: the match is U+5C3D U+7BA1 and the comma
  when it comes at once.
\<close>

lemma rmatch_jinguan:
  "rmatch clause_pattern (0x5C3D # 0x7BA1 # rest) Some =
     Some (case rest of [] \<Rightarrow> [] | c # cs \<Rightarrow> if c = 0xFF0C then cs else c # cs)"
  by (simp add: clause_pattern_def split: list.split)

lemma clause_strip_jinguan:
  "clause_strip (0x5C3D # 0x7BA1 # c # rest) =
     (if c = 0xFF0C then clause_strip rest else clause_strip (c # rest))"
  unfolding clause_strip_def by (simp add: rmatch_jinguan)

text \<open>
  The first and the third alternative anchor their lazy \<^verbatim>\<open>.*?\<close>: the match runs to the
  first U+65F6 (and takes a comma that follows at once), or through the first
  U+4F46 U+662F, provided no line feed comes before; the span is deleted and the scan goes
  on behind it.
\<close>

lemma lazy_dot_until:
  assumes "10 \<notin> set mid" "\<And>c suf. k (c # suf) = None \<or> c \<notin> set mid" "k rest = Some r"
  shows "rmatch (LazyStar Dot) (mid @ rest) k = Some r"
  using assms(1,2)
proof (induction mid)
  case Nil
  show ?case using assms(3) by simp
next
  case (Cons c mid)
  from Cons.prems(2) [of c "mid @ rest"] have n: "k (c # mid @ rest) = None" by simp
  have "rmatch (LazyStar Dot) (mid @ rest) k = Some r"
  proof (rule Cons.IH)
    show "10 \<notin> set mid" using Cons.prems(1) by simp
    show "k (c' # suf) = None \<or> c' \<notin> set mid" for c' suf
      using Cons.prems(2) [of c' suf] by auto
  qed
  with n Cons.prems(1) show ?case by simp
qed

lemma time_clause_deleted:
  assumes "10 \<notin> set mid" "0x65F6 \<notin> set mid"
  shows "rmatch clause_pattern (0x5F53 # mid @ 0x65F6 # rest) Some =
     Some (case rest of [] \<Rightarrow> [] | c # cs \<Rightarrow> if c = 0xFF0C then cs else c # cs)"
proof -
  let ?k = "\<lambda>s'. rmatch (Seq (Lit 0x65F6) (Opt (Lit 0xFF0C))) s' Some"
  have "rmatch (LazyStar Dot) (mid @ 0x65F6 # rest) ?k =
     Some (case rest of [] \<Rightarrow> [] | c # cs \<Rightarrow> if c = 0xFF0C then cs else c # cs)"
  proof (rule lazy_dot_until [OF assms(1)])
    show "?k (c # suf) = None \<or> c \<notin> set mid" for c suf
      using assms(2) by (cases "c = 0x65F6") auto
    show "?k (0x65F6 # rest) = Some (case rest of [] \<Rightarrow> [] | c # cs \<Rightarrow> if c = 0xFF0C then cs else c # cs)"
      by (simp split: list.split)
  qed
  then show ?thesis by (simp add: clause_pattern_def)
qed

lemma paired_construction_deleted:
  assumes "10 \<notin> set mid" "0x4F46 \<notin> set mid"
  shows "rmatch clause_pattern (0x867D # 0x7136 # mid @ 0x4F46 # 0x662F # rest) Some = Some rest"
proof -
  let ?k = "\<lambda>s'. rmatch (Seq (Lit 0x4F46) (Lit 0x662F)) s' Some"
  have "rmatch (LazyStar Dot) (mid @ 0x4F46 # 0x662F # rest) ?k = Some rest"
  proof (rule lazy_dot_until [OF assms(1)])
    show "?k (c # suf) = None \<or> c \<notin> set mid" for c suf
      using assms(2) by (cases "c = 0x4F46") auto
    show "?k (0x4F46 # 0x662F # rest) = Some rest" by simp
  qed
  then show ?thesis by (simp add: clause_pattern_def)
qed

lemma clause_strip_time_clause:
  assumes "10 \<notin> set mid" "0x65F6 \<notin> set mid"
  shows "clause_strip (0x5F53 # mid @ 0x65F6 # rest) =
     clause_strip (case rest of [] \<Rightarrow> [] | c # cs \<Rightarrow> if c = 0xFF0C then cs else c # cs)"
  unfolding clause_strip_def
  by (simp add: time_clause_deleted [OF assms] split: list.split)

lemma clause_strip_paired_construction:
  assumes "10 \<notin> set mid" "0x4F46 \<notin> set mid"
  shows "clause_strip (0x867D # 0x7136 # mid @ 0x4F46 # 0x662F # rest) = clause_strip rest"
  unfolding clause_strip_def
  by (simp add: paired_construction_deleted [OF assms])

text \<open>The sentence of the specification's test of the time clause.\<close>

lemma time_clause_example:
  "clause_strip [0x5F53, 0x5929, 0x6C14, 0x6674, 0x6717, 0x65F6, 0xFF0C, 0x4ED6, 0x51FA, 0x95E8, 0x4E86, 0x3002] =
     [0x4ED6, 0x51FA, 0x95E8, 0x4E86, 0x3002]"
  by (simp add: clause_strip_def clause_pattern_def)
text \<open>
  C3. On the sentence U+5C3D U+7BA1 U+4E0B U+96E8 U+FF0C U+4ED6 U+6765 U+4E86 (a concessive
  lead-in through the comma, then the main clause) the stripping deletes the two
  characters U+5C3D U+7BA1 only: the rest of the lead-in and its comma stay.
\<close>

theorem concessive_span_not_deleted:
  "clause_strip [0x5C3D, 0x7BA1, 0x4E0B, 0x96E8, 0xFF0C, 0x4ED6, 0x6765, 0x4E86] =
     [0x4E0B, 0x96E8, 0xFF0C, 0x4ED6, 0x6765, 0x4E86]"
  by (simp add: clause_strip_def clause_pattern_def)

section \<open>Loading the table\<close>

lemma read_lines_append:
  "read_lines syn (map Line ls @ rest) = read_lines (foldl load_line syn ls) rest"
  by (induction ls arbitrary: syn) simp_all

text \<open>
  A source that yields the line U+95EE U+9898, a space, U+7B54 U+6848 and then fails: the
  constructor returns a processor, the error dialog was shown, the table holds the entry
  of the line read before the failure, and substitution replaces U+95EE U+9898 with it.
\<close>

theorem load_failure_keeps_partial_table_example:
  "fst (init (Opened [Line [0x95EE, 0x9898, 0x20, 0x7B54, 0x6848, 0x0A], ReadError]) 1000) =
     \<lparr>synonyms = [([0x95EE, 0x9898], [[0x7B54, 0x6848]])], synonym_freq = 1000\<rparr> \<and>
   snd (init (Opened [Line [0x95EE, 0x9898, 0x20, 0x7B54, 0x6848, 0x0A], ReadError]) 1000) = True \<and>
   replace_words
     (synonyms (fst (init (Opened [Line [0x95EE, 0x9898, 0x20, 0x7B54, 0x6848, 0x0A], ReadError]) 1000)))
     \<lparr>lcut = (\<lambda>t. [t]), cut = (\<lambda>t. [(t, ''n'')])\<rparr> [0x95EE, 0x9898] = Inr [0x7B54, 0x6848]"
proof -
  have l: "load_line [] [0x95EE, 0x9898, 0x20, 0x7B54, 0x6848, 0x0A] = [([0x95EE, 0x9898], [[0x7B54, 0x6848]])]"
    by (simp add: load_line_def strip_def isspace_def re_split_ws1_def)
  have i: "init (Opened [Line [0x95EE, 0x9898, 0x20, 0x7B54, 0x6848, 0x0A], ReadError]) 1000 =
     (\<lparr>synonyms = [([0x95EE, 0x9898], [[0x7B54, 0x6848]])], synonym_freq = 1000\<rparr>, True)"
    by (simp add: init_def load_synonyms_def l)
  have s: "sorted_keys [([0x95EE, 0x9898], [[0x7B54, 0x6848]])] = [[0x95EE, 0x9898]]"
    by (simp add: sorted_keys_def)
  show ?thesis
    unfolding i by (simp add: replace_words_def s startswith_def first_replacement_def first_def ebind_def)
qed

text \<open>
  C2, as the code has it. A source that cannot be opened, or a read that fails part-way,
  is caught by \<^verbatim>\<open>load_synonyms\<close>, which shows an error dialog; the constructor still
  returns a processor, and its table holds exactly the entries of the lines read before
  the failure (none when the source could not be opened). Without a failure the table is
  that of all the lines and no dialog is shown.
\<close>

theorem load_failure_is_caught:
  "init OpenError freq = (\<lparr>synonyms = [], synonym_freq = freq\<rparr>, True) \<and>
   init (Opened (map Line ls @ ReadError # rest)) freq =
     (\<lparr>synonyms = foldl load_line [] ls, synonym_freq = freq\<rparr>, True) \<and>
   init (Opened (map Line ls)) freq =
     (\<lparr>synonyms = foldl load_line [] ls, synonym_freq = freq\<rparr>, False)"
proof -
  have a: "read_lines [] (map Line ls @ ReadError # rest) = (foldl load_line [] ls, True)"
    by (simp add: read_lines_append)
  have b: "read_lines [] (map Line ls) = (foldl load_line [] ls, False)"
    using read_lines_append [of "[]" ls "[]"] by simp
  show ?thesis
    by (simp add: init_def load_synonyms_def a b)
qed
section \<open>The pipeline\<close>

lemma re_split_marks_unfold:
  "re_split_marks para =
     takeWhile (\<lambda>c. \<not> is_mark c) para #
       (case dropWhile (\<lambda>c. \<not> is_mark c) para of [] \<Rightarrow> [] | m # rest \<Rightarrow> [m] # re_split_marks rest)"
proof (induction para)
  case Nil
  show ?case by simp
next
  case (Cons c cs)
  show ?case
  proof (cases "is_mark c")
    case True
    then show ?thesis by simp
  next
    case False
    then show ?thesis by (simp add: Cons.IH)
  qed
qed

lemma sentences_unfold:
  "sentences para =
     (case dropWhile (\<lambda>c. \<not> is_mark c) para of
        [] \<Rightarrow> []
      | m # rest \<Rightarrow> (takeWhile (\<lambda>c. \<not> is_mark c) para, m) # sentences rest)"
proof (induction para)
  case Nil
  show ?case by simp
next
  case (Cons c cs)
  show ?case
  proof (cases "is_mark c")
    case True
    then show ?thesis by simp
  next
    case False
    then show ?thesis
      by (cases "dropWhile (\<lambda>c. \<not> is_mark c) cs")
        (simp_all add: Cons.IH del: dropWhile_eq_Nil_conv)
  qed
qed

lemma text_piece_not_mark: "takeWhile (\<lambda>c. \<not> is_mark c) para \<notin> set marks"
proof
  assume "takeWhile (\<lambda>c. \<not> is_mark c) para \<in> set marks"
  then obtain m where m: "takeWhile (\<lambda>c. \<not> is_mark c) para = [m]" "is_mark m"
    by (auto simp: marks_def is_mark_def)
  then have "m \<in> set (takeWhile (\<lambda>c. \<not> is_mark c) para)" by simp
  then have "\<not> is_mark m" by (rule set_takeWhileD [THEN conjunct2])
  with m show False by simp
qed

lemma mark_in_marks: "is_mark m \<Longrightarrow> [m] \<in> set marks"
  by (auto simp: marks_def is_mark_def)

lemma sentence_loop_text:
  "t \<notin> set marks \<Longrightarrow>
   sentence_loop syn jb (t # segs) buffer news pairs = sentence_loop syn jb segs (buffer @ [t]) news pairs"
  by simp

lemma sentence_loop_mark:
  "is_mark m \<Longrightarrow>
   sentence_loop syn jb ([m] # segs) [t] news pairs =
     ebind (transform syn jb (strip t)) (\<lambda>replaced.
       sentence_loop syn jb segs [] (news @ [replaced @ [m]])
         (if strip t \<noteq> [] \<and> replaced \<noteq> []
          then pairs @ [(strip t @ [m], replaced @ [m])]
          else pairs))"
  by (simp add: mark_in_marks transform_def ebind_def Let_def split: sum.splits)

lemma sentence_loop_emit:
  "sentence_loop syn jb (re_split_marks para) [] news pairs = emit syn jb (sentences para) news pairs"
proof (induction para arbitrary: news pairs rule: length_induct)
  case (1 para)
  let ?t = "takeWhile (\<lambda>c. \<not> is_mark c) para"
  show ?case
  proof (cases "dropWhile (\<lambda>c. \<not> is_mark c) para")
    case Nil
    have r: "re_split_marks para = [?t]"
      by (subst re_split_marks_unfold) (simp only: Nil list.case)
    have s: "sentences para = []"
      by (subst sentences_unfold) (simp only: Nil list.case)
    show ?thesis unfolding r s by (simp add: text_piece_not_mark)
  next
    case (Cons m rest)
    have r: "re_split_marks para = ?t # [m] # re_split_marks rest"
      by (subst re_split_marks_unfold) (simp only: Cons list.case)
    have s: "sentences para = (?t, m) # sentences rest"
      by (subst sentences_unfold) (simp only: Cons list.case)
    have m: "is_mark m"
      using hd_dropWhile [of "\<lambda>c. \<not> is_mark c" para] Cons by simp
    have "length (dropWhile (\<lambda>c. \<not> is_mark c) para) \<le> length para"
      by (rule length_dropWhile_le)
    then have "length rest < length para" unfolding Cons by simp
    with 1 have ih: "sentence_loop syn jb (re_split_marks rest) [] n p = emit syn jb (sentences rest) n p"
      for n p by blast
    show ?thesis
      unfolding r s
      by (simp only: sentence_loop_text [OF text_piece_not_mark] append_Nil
          sentence_loop_mark [OF m] emit.simps ih)
  qed
qed

lemma blank_no_sentences: "strip para = [] \<Longrightarrow> sentences para = []"
proof -
  assume "strip para = []"
  then have "\<forall>c \<in> set (dropWhile isspace para). isspace c"
    by (simp add: strip_def dropWhile_eq_Nil_conv)
  then have "dropWhile isspace para = []"
    using hd_dropWhile [of isspace para] by (cases "dropWhile isspace para") auto
  then have sp: "\<forall>c \<in> set para. isspace c" by (simp add: dropWhile_eq_Nil_conv)
  have "\<forall>c \<in> set para. \<not> is_mark c"
  proof
    fix c assume "c \<in> set para"
    with sp have "isspace c" by blast
    then show "\<not> is_mark c" by (auto simp: isspace_def is_mark_def)
  qed
  then have "dropWhile (\<lambda>c. \<not> is_mark c) para = []" by (simp add: dropWhile_eq_Nil_conv)
  then show ?thesis by (subst sentences_unfold) (simp only: list.case)
qed

lemma paragraph_loop_emit:
  "paragraph_loop syn jb paras pp cp = emit_paragraphs syn jb (map sentences paras) pp cp"
proof (induction paras arbitrary: pp cp)
  case Nil
  show ?case by simp
next
  case (Cons para paras)
  show ?case
  proof (cases "strip para = []")
    case True
    then show ?thesis by (simp add: blank_no_sentences Cons.IH ebind_def)
  next
    case False
    then show ?thesis
      by (cases "emit syn jb (sentences para) [] cp")
        (auto simp: sentence_loop_emit Cons.IH ebind_def)
  qed
qed

lemma process_by_sentences:
  "process syn jb text contrast =
     ebind (emit_paragraphs syn jb (map sentences (split_nl text)) [] [])
       (\<lambda>(processed_paragraphs, contrast_pairs).
          Inr (if contrast then TextPairs (join_nl processed_paragraphs) contrast_pairs
               else Text (join_nl processed_paragraphs)))"
  by (simp add: process_def paragraph_loop_emit Let_def)

lemma first_replacement_ok:
  assumes "\<forall>(k, vs) \<in> set syn. vs \<noteq> []" "k \<in> fst ` set syn"
  shows "\<exists>r. first_replacement syn k = Inr r"
proof -
  from assms(2) obtain vs where vs: "map_of syn k = Some vs"
    by (metis domD dom_map_of_conv_image_fst)
  then have "(k, vs) \<in> set syn" by (rule map_of_SomeD)
  with assms(1) have "vs \<noteq> []" by auto
  with vs show ?thesis
    by (cases vs) (simp_all add: first_replacement_def first_def)
qed

lemma replace_loop_total:
  assumes "\<forall>(k, vs) \<in> set syn. vs \<noteq> []"
  shows "\<exists>r. replace_loop syn text ws replaced cur = Inr r"
proof (induction ws arbitrary: replaced cur)
  case Nil
  show ?case by simp
next
  case (Cons word ws)
  show ?case
  proof (cases "word \<in> fst ` set syn")
    case False
    then show ?thesis using Cons.IH by simp
  next
    case True
    show ?thesis
    proof (cases "find (\<lambda>orig. startswith text orig cur) (sorted_keys syn)")
      case None
      from first_replacement_ok [OF assms True] obtain r where "first_replacement syn word = Inr r" ..
      with True None Cons.IH show ?thesis by (simp add: ebind_def)
    next
      case (Some orig)
      then have "orig \<in> set (sorted_keys syn)" by (auto simp: find_Some_iff)
      then have "orig \<in> fst ` set syn" by (simp only: set_sorted_keys)
      from first_replacement_ok [OF assms this] obtain r where "first_replacement syn orig = Inr r" ..
      with True Some Cons.IH show ?thesis by (simp add: ebind_def)
    qed
  qed
qed

lemma transform_substituted:
  assumes "\<forall>t. \<forall>tok \<in> set (cut jb t). snd tok \<noteq> []" "\<forall>(k, vs) \<in> set syn. vs \<noteq> []"
  shows "transform syn jb (strip t) = Inr (substituted syn jb t)"
proof -
  from assms(1) have "\<forall>tok \<in> set (cut jb (clause_strip (strip t))). snd tok \<noteq> []" by blast
  from select_kept_filter [OF this, of "[]"]
  obtain kept where "select_kept (cut jb (clause_strip (strip t))) [] = Inr kept" by blast
  then have c: "condense_sentence jb (strip t) = Inr (build_condensed kept)"
    by (simp add: condense_sentence_def ebind_def)
  from replace_loop_total [OF assms(2)]
  obtain r where "replace_words syn jb (build_condensed kept) = Inr r"
    unfolding replace_words_def by blast
  with c have "transform syn jb (strip t) = Inr r"
    by (simp add: transform_def ebind_def)
  then show ?thesis by (simp add: substituted_def)
qed

lemma emit_total:
  assumes "\<And>t. transform syn jb (strip t) = Inr (substituted syn jb t)"
  shows "emit syn jb ss news pairs =
    Inr (news @ map (\<lambda>(t, m). substituted syn jb t @ [m]) ss,
         pairs @ concat (map (\<lambda>(t, m).
            if strip t \<noteq> [] \<and> substituted syn jb t \<noteq> []
            then [(strip t @ [m], substituted syn jb t @ [m])] else []) ss))"
proof (induction ss arbitrary: news pairs)
  case Nil
  show ?case by simp
next
  case (Cons s ss)
  obtain t m where s: "s = (t, m)" by (cases s)
  show ?case unfolding s by (simp add: assms ebind_def Cons.IH)
qed

lemma emit_paragraphs_total:
  assumes "\<And>t. transform syn jb (strip t) = Inr (substituted syn jb t)"
  shows "emit_paragraphs syn jb sss pp cp =
    Inr (pp @ map (\<lambda>ss. concat (map (\<lambda>(t, m). substituted syn jb t @ [m]) ss)) sss,
         cp @ concat (map (\<lambda>ss. concat (map (\<lambda>(t, m).
            if strip t \<noteq> [] \<and> substituted syn jb t \<noteq> []
            then [(strip t @ [m], substituted syn jb t @ [m])] else []) ss)) sss))"
proof (induction sss arbitrary: pp cp)
  case Nil
  show ?case by simp
next
  case (Cons ss sss)
  show ?case by (simp add: emit_total [OF assms] ebind_def Cons.IH)
qed

lemma process_explicit:
  assumes "\<forall>t. \<forall>tok \<in> set (cut jb t). snd tok \<noteq> []" "\<forall>(k, vs) \<in> set syn. vs \<noteq> []"
  shows "process syn jb text contrast =
    Inr (if contrast
         then TextPairs
           (join_nl (map (\<lambda>para. concat (map (\<lambda>(t, m). substituted syn jb t @ [m]) (sentences para)))
              (split_nl text)))
           (concat (map (\<lambda>para. concat (map (\<lambda>(t, m).
              if strip t \<noteq> [] \<and> substituted syn jb t \<noteq> []
              then [(strip t @ [m], substituted syn jb t @ [m])] else []) (sentences para)))
              (split_nl text)))
         else Text
           (join_nl (map (\<lambda>para. concat (map (\<lambda>(t, m). substituted syn jb t @ [m]) (sentences para)))
              (split_nl text))))"
  unfolding process_by_sentences
  by (simp add: emit_paragraphs_total [OF transform_substituted [OF assms]] ebind_def comp_def)

lemma rmatch_suffix:
  "rmatch r s k = Some out \<Longrightarrow> \<exists>s'. suffix s' s \<and> k s' = Some out"
proof (induction r s k arbitrary: out rule: rmatch.induct)
  case (1 c s k)
  then show ?case by (cases s) (auto split: if_splits intro: suffix_ConsI)
next
  case (2 s k)
  then show ?case by (cases s) (auto split: if_splits intro: suffix_ConsI)
next
  case (3 a b s k)
  from "3.prems" have "rmatch a s (\<lambda>s'. rmatch b s' k) = Some out" by simp
  from "3.IH"(2) [OF this] obtain s' where s': "suffix s' s" "rmatch b s' k = Some out" by blast
  from "3.IH"(1) [OF s'(2)] obtain s'' where "suffix s'' s'" "k s'' = Some out" by blast
  with s'(1) show ?case by (blast intro: suffix_order.trans)
next
  case (4 a b s k)
  show ?case
  proof (cases "rmatch a s k")
    case None
    with "4.prems" have "rmatch b s k = Some out" by simp
    from "4.IH"(2) [OF None this] show ?thesis .
  next
    case (Some r)
    with "4.prems" have "rmatch a s k = Some out" by simp
    from "4.IH"(1) [OF this] show ?thesis .
  qed
next
  case (5 a s k)
  show ?case
  proof (cases "rmatch a s k")
    case None
    with "5.prems" have "k s = Some out" by simp
    then show ?thesis by blast
  next
    case (Some r)
    with "5.prems" have "rmatch a s k = Some out" by simp
    from "5.IH" [OF this] show ?thesis .
  qed
next
  case (6 a s k)
  show ?case
  proof (cases "k s")
    case (Some r)
    with "6.prems" have "k s = Some out" by simp
    then show ?thesis by blast
  next
    case None
    with "6.prems"
    have "rmatch a s (\<lambda>s'. if length s' < length s then rmatch (LazyStar a) s' k else None) = Some out"
      by simp
    from "6.IH"(2) [OF None this] obtain s' where s': "suffix s' s"
      "(if length s' < length s then rmatch (LazyStar a) s' k else None) = Some out" by blast
    then have l: "length s' < length s" and m: "rmatch (LazyStar a) s' k = Some out"
      by (auto split: if_splits)
    from "6.IH"(1) [OF None l m] obtain s'' where "suffix s'' s'" "k s'' = Some out" by blast
    with s'(1) show ?thesis by (blast intro: suffix_order.trans)
  qed
qed

lemma set_re_sub_empty: "set (re_sub_empty r s) \<subseteq> set s"
proof (induction r s rule: re_sub_empty.induct)
  case (1 r)
  show ?case by simp
next
  case (2 r x xs)
  show ?case
  proof (cases "rmatch r (x # xs) Some")
    case None
    with "2.IH"(1) show ?thesis by auto
  next
    case (Some rest)
    show ?thesis
    proof (cases "length rest < length (x # xs)")
      case True
      from rmatch_suffix [OF Some] have "suffix rest (x # xs)" by simp
      then have "set rest \<subseteq> set (x # xs)" by (rule set_mono_suffix)
      with "2.IH"(2) [OF Some True] Some True show ?thesis by auto
    next
      case False
      with "2.IH"(3) [OF Some False] Some show ?thesis by auto
    qed
  qed
qed

lemma set_clause_strip: "set (clause_strip s) \<subseteq> set s"
  unfolding clause_strip_def by (rule set_re_sub_empty)

lemma set_strip: "set (strip s) \<subseteq> set s"
proof -
  have "set (strip s) \<subseteq> set (rev (dropWhile isspace s))"
    unfolding strip_def set_rev by (auto dest: set_dropWhileD)
  also have "\<dots> \<subseteq> set s" by (auto dest: set_dropWhileD)
  finally show ?thesis .
qed

lemma set_dedup_step: "i < length kept \<Longrightarrow> set (dedup_step kept i acc) \<subseteq> set acc \<union> set kept"
  by (auto simp: dedup_step_def)

lemma set_dedup_loop:
  "\<forall>i \<in> set js. i < length kept \<Longrightarrow> set (dedup_loop kept js acc) \<subseteq> set acc \<union> set kept"
proof (induction js arbitrary: acc)
  case Nil
  show ?case by simp
next
  case (Cons i js)
  then have i: "i < length kept" and js: "\<forall>i \<in> set js. i < length kept" by auto
  have "set (dedup_loop kept (i # js) acc) \<subseteq> set (dedup_step kept i acc) \<union> set kept"
    unfolding dedup_loop_step by (rule Cons.IH [OF js])
  with set_dedup_step [OF i, of acc] show ?case by blast
qed

lemma set_build_condensed: "set (build_condensed kept) \<subseteq> \<Union> (set ` set kept)"
proof -
  have "set (condensed_tokens kept) \<subseteq> set kept"
    using set_dedup_loop [of "[0 ..< length kept]" kept "[]"] by (simp add: condensed_tokens_def)
  then show ?thesis by (auto simp: build_condensed_def)
qed

lemma set_condense_sentence:
  assumes "concat (map fst (cut jb (clause_strip s))) = clause_strip s"
    "condense_sentence jb s = Inr c"
  shows "set c \<subseteq> set s"
proof -
  let ?tagged = "cut jb (clause_strip s)"
  from assms(2) obtain kept where k: "select_kept ?tagged [] = Inr kept" "c = build_condensed kept"
    by (auto simp: condense_sentence_def ebind_def split: sum.splits)
  have sub: "set kept' \<subseteq> set acc \<union> fst ` set tagged"
    if "select_kept tagged acc = Inr kept'" for tagged acc kept'
    using that
  proof (induction tagged arbitrary: acc)
    case Nil
    then show ?case by simp
  next
    case (Cons tok tagged)
    obtain word pos where tok: "tok = (word, pos)" by (cases tok)
    from Cons.prems obtain p0 ps where pos: "pos = p0 # ps"
      unfolding tok by (cases pos) (auto simp: ebind_def first_def)
    from Cons.prems have
      "select_kept tagged (acc @ [word]) = Inr kept' \<or> select_kept tagged acc = Inr kept'"
      unfolding tok pos by (auto simp: ebind_def first_def split: if_splits)
    then show ?case
    proof
      assume "select_kept tagged (acc @ [word]) = Inr kept'"
      from Cons.IH [OF this] show ?thesis unfolding tok by auto
    next
      assume "select_kept tagged acc = Inr kept'"
      from Cons.IH [OF this] show ?thesis unfolding tok by auto
    qed
  qed
  from sub [OF k(1)] have "set kept \<subseteq> fst ` set ?tagged" by simp
  then have "\<Union> (set ` set kept) \<subseteq> set (concat (map fst ?tagged))" by auto
  also have "\<dots> = set (clause_strip s)" by (simp only: assms(1))
  also have "\<dots> \<subseteq> set s" by (rule set_clause_strip)
  finally show ?thesis using set_build_condensed [of kept] k(2) by blast
qed

lemma first_replacement_in_table:
  "first_replacement syn k = Inr r \<Longrightarrow> \<exists>vs. (k, vs) \<in> set syn \<and> vs \<noteq> [] \<and> r = hd vs"
  by (auto simp: first_replacement_def first_def split: option.splits list.splits dest: map_of_SomeD)

lemma replace_loop_chars:
  assumes "\<forall>(k, vs) \<in> set syn. \<forall>c \<in> set (hd vs). P c"
    "replace_loop syn text ws replaced cur = Inr r"
    "\<forall>w \<in> set ws. \<forall>c \<in> set w. P c" "\<forall>w \<in> set replaced. \<forall>c \<in> set w. P c"
  shows "\<forall>c \<in> set r. P c"
  using assms(2-4)
proof (induction ws arbitrary: replaced cur)
  case Nil
  then show ?case by auto
next
  case (Cons word ws)
  from Cons.prems(2) have ws: "\<forall>w \<in> set ws. \<forall>c \<in> set w. P c" and w: "\<forall>c \<in> set word. P c" by auto
  from Cons.prems(1) obtain piece n where
    step: "replace_loop syn text ws (replaced @ [piece]) n = Inr r"
    and piece: "piece = word \<or> (\<exists>k. first_replacement syn k = Inr piece)"
    by (auto simp: ebind_def split: if_splits option.splits sum.splits)
  from piece have "\<forall>c \<in> set piece. P c"
  proof
    assume "piece = word" with w show ?thesis by simp
  next
    assume "\<exists>k. first_replacement syn k = Inr piece"
    then obtain k where "first_replacement syn k = Inr piece" ..
    from first_replacement_in_table [OF this] assms(1) show ?thesis by auto
  qed
  with Cons.prems(3) have "\<forall>w \<in> set (replaced @ [piece]). \<forall>c \<in> set w. P c" by auto
  from Cons.IH [OF step ws this] show ?case .
qed

lemma substituted_chars:
  assumes flags: "\<forall>t. \<forall>tok \<in> set (cut jb t). snd tok \<noteq> []"
    and table: "\<forall>(k, vs) \<in> set syn. vs \<noteq> [] \<and> (\<forall>c \<in> set (hd vs). P c)"
    and cut: "\<forall>t. concat (map fst (cut jb t)) = t"
    and lcut: "\<forall>t. concat (lcut jb t) = t"
    and t: "\<forall>c \<in> set t. P c"
  shows "\<forall>c \<in> set (substituted syn jb t). P c"
proof -
  from table have ne: "\<forall>(k, vs) \<in> set syn. vs \<noteq> []" and p: "\<forall>(k, vs) \<in> set syn. \<forall>c \<in> set (hd vs). P c"
    by auto
  from transform_substituted [OF flags ne, of t]
  obtain c where c: "condense_sentence jb (strip t) = Inr c"
    and r: "replace_words syn jb c = Inr (substituted syn jb t)"
    by (auto simp: transform_def ebind_def split: sum.splits)
  from cut have "concat (map fst (cut jb (clause_strip (strip t)))) = clause_strip (strip t)" by blast
  from set_condense_sentence [OF this c] set_strip [of t] t have pc: "\<forall>x \<in> set c. P x" by blast
  have "set (concat (lcut jb c)) = set c" using lcut by simp
  with pc have "\<forall>w \<in> set (lcut jb c). \<forall>x \<in> set w. P x" by auto
  from replace_loop_chars [OF p r [unfolded replace_words_def] this] show ?thesis by simp
qed

lemma sentences_no_marks: "\<forall>c \<in> set s. \<not> is_mark c \<Longrightarrow> sentences s = []"
  by (induction s) simp_all

lemma sentences_append_tail:
  "\<forall>c \<in> set tail. \<not> is_mark c \<Longrightarrow> sentences (p @ tail) = sentences p"
  by (induction p) (simp_all add: sentences_no_marks)

lemma length_sentences: "length (sentences s) = count_marks s"
proof (induction s)
  case Nil
  show ?case by (simp add: count_marks_def)
next
  case (Cons c cs)
  then show ?case by (cases "sentences cs") (auto simp: count_marks_def)
qed

lemma sentences_parts:
  "(t, m) \<in> set (sentences s) \<Longrightarrow> is_mark m \<and> (\<forall>c \<in> set t. \<not> is_mark c) \<and> set t \<subseteq> set s"
proof (induction s arbitrary: t m)
  case Nil
  then show ?case by simp
next
  case (Cons c cs)
  show ?case
  proof (cases "is_mark c")
    case True
    with Cons.prems have "(t, m) = ([], c) \<or> (t, m) \<in> set (sentences cs)" by simp
    then show ?thesis using True Cons.IH by auto
  next
    case False
    show ?thesis
    proof (cases "sentences cs")
      case Nil
      with False Cons.prems show ?thesis by simp
    next
      case (Cons p rest)
      obtain t0 m0 where p: "p = (t0, m0)" by (cases p)
      from Cons.prems False Cons p
      have "(t, m) = (c # t0, m0) \<or> (t, m) \<in> set rest" by simp
      then show ?thesis
      proof
        assume e: "(t, m) = (c # t0, m0)"
        have "(t0, m0) \<in> set (sentences cs)" by (simp add: Cons p)
        from Cons.IH [OF this] e False show ?thesis by auto
      next
        assume "(t, m) \<in> set rest"
        then have "(t, m) \<in> set (sentences cs)" by (simp add: Cons)
        from Cons.IH [OF this] show ?thesis by auto
      qed
    qed
  qed
qed

lemma split_nl_not_Nil: "split_nl s \<noteq> []"
  by (induction s) (auto split: list.splits)

lemma split_nl_no_nl: "p \<in> set (split_nl s) \<Longrightarrow> 10 \<notin> set p"
proof (induction s arbitrary: p)
  case Nil
  then show ?case by simp
next
  case (Cons c cs)
  then show ?case
    by (cases "split_nl cs") (auto split: if_splits)
qed

lemma split_nl_plain: "10 \<notin> set s \<Longrightarrow> split_nl s = [s]"
  by (induction s) auto

lemma split_nl_append:
  "split_nl (xs @ ys) =
     butlast (split_nl xs) @ [last (split_nl xs) @ hd (split_nl ys)] @ tl (split_nl ys)"
proof (induction xs)
  case Nil
  show ?case using split_nl_not_Nil [of ys] by (cases "split_nl ys") simp_all
next
  case (Cons c xs)
  obtain p ps where x: "split_nl xs = p # ps"
    using split_nl_not_Nil [of xs] by (cases "split_nl xs") auto
  obtain q qs where xy: "split_nl (xs @ ys) = q # qs"
    using split_nl_not_Nil [of "xs @ ys"] by (cases "split_nl (xs @ ys)") auto
  show ?case
  proof (cases "c = 10")
    case True
    then show ?thesis using Cons.IH by (simp add: x)
  next
    case False
    show ?thesis
    proof (cases ps)
      case Nil
      with Cons.IH x xy False show ?thesis by simp
    next
      case (Cons p' ps')
      with Cons.IH x xy False show ?thesis by simp
    qed
  qed
qed

lemma split_nl_join:
  "ps \<noteq> [] \<Longrightarrow> \<forall>p \<in> set ps. 10 \<notin> set p \<Longrightarrow> split_nl (join_nl ps) = ps"
proof (induction ps rule: join_nl.induct)
  case 1
  then show ?case by simp
next
  case (2 p)
  then show ?case by (simp add: split_nl_plain)
next
  case (3 p q ps)
  then have ih: "split_nl (join_nl (q # ps)) = q # ps" by simp
  from 3 have p: "10 \<notin> set p" by simp
  have "split_nl (p @ 10 # join_nl (q # ps)) =
    butlast (split_nl p) @ [last (split_nl p) @ hd (split_nl (10 # join_nl (q # ps)))] @
      tl (split_nl (10 # join_nl (q # ps)))"
    by (rule split_nl_append)
  then show ?case by (simp add: split_nl_plain [OF p] ih)
qed

lemma split_nl_drop_tail:
  assumes "\<forall>c \<in> set tail. \<not> is_mark c \<and> c \<noteq> 10" "after = [] \<or> hd after = 10"
  shows "map sentences (split_nl (before @ tail @ after)) = map sentences (split_nl (before @ after))"
proof -
  from assms(1) have nl: "10 \<notin> set tail" and nm: "\<forall>c \<in> set tail. \<not> is_mark c" by auto
  from assms(2) have hd: "hd (split_nl after) = []" by (cases after) auto
  have "split_nl (tail @ after) = tail # tl (split_nl after)"
    unfolding split_nl_append [of tail after] by (simp add: split_nl_plain [OF nl] hd)
  then have a: "split_nl (before @ tail @ after) =
      butlast (split_nl before) @ [last (split_nl before) @ tail] @ tl (split_nl after)"
    unfolding split_nl_append [of before "tail @ after"] by simp
  have b: "split_nl (before @ after) =
      butlast (split_nl before) @ [last (split_nl before)] @ tl (split_nl after)"
    unfolding split_nl_append [of before after] by (simp add: hd)
  show ?thesis unfolding a b by (simp add: sentences_append_tail [OF nm])
qed

text \<open>
  C8. When the tagger gives every token a flag and every key of the table has a
  replacement (so that nothing raises), \<^verbatim>\<open>process\<close> with contrast output returns, in
  document order, one pair for each sentence whose trimmed text and whose substituted
  text are both non-empty, and none for the other sentences: the trimmed text with the
  sentence's mark, and the substituted text with the same mark. Without contrast output
  it returns the text alone.
\<close>

theorem contrast_pairs_per_sentence:
  assumes "\<forall>t. \<forall>tok \<in> set (cut jb t). snd tok \<noteq> []" "\<forall>(k, vs) \<in> set syn. vs \<noteq> []"
  shows "(\<exists>out. process syn jb text True =
      Inr (TextPairs out
        [(strip t @ [m], substituted syn jb t @ [m]).
           para \<leftarrow> split_nl text, (t, m) \<leftarrow> sentences para,
           strip t \<noteq> [] \<and> substituted syn jb t \<noteq> []])) \<and>
    (\<exists>out. process syn jb text False = Inr (Text out))"
proof -
  have "[(strip t @ [m], substituted syn jb t @ [m]).
           para \<leftarrow> split_nl text, (t, m) \<leftarrow> sentences para,
           strip t \<noteq> [] \<and> substituted syn jb t \<noteq> []] =
        concat (map (\<lambda>para. concat (map (\<lambda>(t, m).
              if strip t \<noteq> [] \<and> substituted syn jb t \<noteq> []
              then [(strip t @ [m], substituted syn jb t @ [m])] else []) (sentences para)))
              (split_nl text))"
    by (simp add: case_prod_beta)
  then show ?thesis
    using process_explicit [OF assms, of "text" True] process_explicit [OF assms, of "text" False]
    by simp
qed

text \<open>
  C9. Text that has no terminal mark and no line break and that runs to the end of its
  paragraph changes nothing: \<^verbatim>\<open>process\<close> returns the same text and the same pairs (or
  raises the same error) with it and without it. A paragraph that is such a text
  altogether becomes the empty string, with no pair.
\<close>

theorem trailing_text_dropped:
  assumes "\<forall>c \<in> set tail. \<not> is_mark c \<and> c \<noteq> 10" "after = [] \<or> hd after = 10"
  shows "process syn jb (before @ tail @ after) contrast = process syn jb (before @ after) contrast \<and>
    process syn jb tail contrast = Inr (if contrast then TextPairs [] [] else Text [])"
proof -
  have a: "process syn jb (before @ tail @ after) contrast = process syn jb (before @ after) contrast"
    unfolding process_by_sentences split_nl_drop_tail [OF assms] ..
  from assms(1) have "10 \<notin> set tail" "\<forall>c \<in> set tail. \<not> is_mark c" by auto
  then have "map sentences (split_nl tail) = [[]]"
    by (simp add: split_nl_plain sentences_no_marks)
  then have b: "process syn jb tail contrast = Inr (if contrast then TextPairs [] [] else Text [])"
    unfolding process_by_sentences by (simp add: ebind_def)
  from a b show ?thesis ..
qed

lemma paragraph_out_no_line_feed:
  assumes "\<And>t m. (t, m) \<in> set ss \<Longrightarrow> is_mark m \<and> 10 \<notin> set (f t)"
  shows "10 \<notin> set (concat (map (\<lambda>(t, m). f t @ [m]) ss))"
proof -
  have "10 \<notin> set (f t @ [m])" if "(t, m) \<in> set ss" for t m
    using assms [OF that] by (auto simp: is_mark_def)
  then show ?thesis by auto
qed

lemma paragraph_out_count_marks:
  assumes "\<And>t m. (t, m) \<in> set ss \<Longrightarrow> is_mark m"
  shows "count_marks (concat (map (\<lambda>(t, m). f t @ [m]) ss)) =
         length ss + sum_list (map (\<lambda>(t, m). count_marks (f t)) ss)"
  using assms
proof (induction ss)
  case Nil
  show ?case by (simp add: count_marks_def)
next
  case (Cons s ss)
  obtain t m where s: "s = (t, m)" by (cases s)
  from Cons.prems [of t m] have m: "is_mark m" by (simp add: s)
  have "count_marks (concat (map (\<lambda>(t, m). f t @ [m]) ss)) =
         length ss + sum_list (map (\<lambda>(t, m). count_marks (f t)) ss)"
    by (rule Cons.IH) (use Cons.prems in auto)
  with m show ?case unfolding s by (simp add: count_marks_def)
qed

text \<open>
  A table that \<^verbatim>\<open>load_synonyms\<close> builds from lines with no line feed but at their end,
  as iterating a file yields them, has a replacement for every key and no line feed in
  any replacement.
\<close>

lemma strip_snoc_space: "isspace c \<Longrightarrow> strip (s @ [c]) = strip s"
proof (cases "\<forall>x \<in> set s. isspace x")
  case True
  assume "isspace c"
  with True have "dropWhile isspace (s @ [c]) = []" "dropWhile isspace s = []"
    by (simp_all add: dropWhile_eq_Nil_conv)
  then show ?thesis by (simp only: strip_def rev.simps dropWhile.simps)
next
  case False
  assume c: "isspace c"
  from False have "dropWhile isspace (s @ [c]) = dropWhile isspace s @ [c]"
    by (auto intro: dropWhile_append1)
  with c show ?thesis by (simp add: strip_def)
qed

lemma strip_line_no_line_feed:
  assumes "10 \<notin> set (butlast l)"
  shows "10 \<notin> set (strip l)"
proof (cases l rule: rev_cases)
  case Nil
  then show ?thesis by (simp add: strip_def)
next
  case (snoc s c)
  with assms have s: "10 \<notin> set s" by simp
  show ?thesis
  proof (cases "c = 10")
    case True
    then have "isspace c" by (simp add: isspace_def)
    then have "strip l = strip s" unfolding snoc by (rule strip_snoc_space)
    with s set_strip [of s] show ?thesis by auto
  next
    case False
    with s snoc have "10 \<notin> set l" by simp
    with set_strip [of l] show ?thesis by auto
  qed
qed

lemma append_synonym_values:
  assumes "\<forall>(k, vs) \<in> set syn. vs \<noteq> [] \<and> (\<forall>v \<in> set vs. P v)" "P r"
  shows "\<forall>(k, vs) \<in> set (append_synonym syn orig r). vs \<noteq> [] \<and> (\<forall>v \<in> set vs. P v)"
  using assms(1)
proof (induction syn)
  case Nil
  show ?case using assms(2) by simp
next
  case (Cons e syn)
  obtain k vs where e: "e = (k, vs)" by (cases e)
  from Cons show ?case unfolding e using assms(2) by auto
qed

lemma load_line_values:
  assumes "\<forall>(k, vs) \<in> set syn. vs \<noteq> [] \<and> (\<forall>v \<in> set vs. 10 \<notin> set v)" "10 \<notin> set (butlast l)"
  shows "\<forall>(k, vs) \<in> set (load_line syn l). vs \<noteq> [] \<and> (\<forall>v \<in> set vs. 10 \<notin> set v)"
proof -
  let ?line = "strip l"
  let ?r = "dropWhile isspace (dropWhile (\<lambda>c. \<not> isspace c) ?line)"
  have "set ?r \<subseteq> set ?line" by (auto dest!: set_dropWhileD)
  with strip_line_no_line_feed [OF assms(2)] have r: "10 \<notin> set ?r" by auto
  show ?thesis
  proof (cases "?line = [] \<or> \<not> (\<exists>c \<in> set ?line. isspace c)")
    case True
    with assms(1) show ?thesis
      by (auto simp: load_line_def re_split_ws1_def Let_def)
  next
    case False
    then have "load_line syn l =
      append_synonym syn (takeWhile (\<lambda>c. \<not> isspace c) ?line) ?r"
      by (auto simp: load_line_def re_split_ws1_def Let_def)
    with append_synonym_values [of syn "\<lambda>v. 10 \<notin> set v", OF assms(1) r]
    show ?thesis by simp
  qed
qed

lemma read_lines_values:
  assumes "\<forall>(k, vs) \<in> set syn. vs \<noteq> [] \<and> (\<forall>v \<in> set vs. 10 \<notin> set v)"
    "\<forall>l. Line l \<in> set chunks \<longrightarrow> 10 \<notin> set (butlast l)"
  shows "\<forall>(k, vs) \<in> set (fst (read_lines syn chunks)). vs \<noteq> [] \<and> (\<forall>v \<in> set vs. 10 \<notin> set v)"
  using assms
proof (induction syn chunks rule: read_lines.induct)
  case (1 syn)
  then show ?case by simp
next
  case (2 syn l rest)
  from "2.prems"(2) have l: "10 \<notin> set (butlast l)" and rest: "\<forall>l. Line l \<in> set rest \<longrightarrow> 10 \<notin> set (butlast l)"
    by auto
  from "2.IH" [OF load_line_values [OF "2.prems"(1) l] rest] show ?case by simp
next
  case (3 syn rest)
  then show ?case by simp
qed

lemma loaded_table_replacements:
  assumes "\<forall>l. Line l \<in> set chunks \<longrightarrow> 10 \<notin> set (butlast l)"
  shows "\<forall>(k, vs) \<in> set (synonyms (fst (init (Opened chunks) freq))).
           vs \<noteq> [] \<and> 10 \<notin> set (hd vs)"
proof -
  have "\<forall>(k, vs) \<in> set (fst (read_lines [] chunks)). vs \<noteq> [] \<and> (\<forall>v \<in> set vs. 10 \<notin> set v)"
    by (rule read_lines_values [OF _ assms]) simp
  then have "\<forall>(k, vs) \<in> set (fst (read_lines [] chunks)). vs \<noteq> [] \<and> 10 \<notin> set (hd vs)"
    by fastforce
  then show ?thesis
    by (simp add: init_def load_synonyms_def case_prod_beta)
qed

text \<open>
  C5, as the code has it. When nothing raises (the tagger gives every token a flag and
  every key of the table has a replacement), \<^verbatim>\<open>process\<close> returns the paragraphs joined
  by line feeds, and in a paragraph each sentence contributes its substituted text
  followed by its mark, so a sentence whose substituted text is empty contributes its
  mark alone. When moreover both segmentations concatenate to their input and no first
  replacement has a line feed in it, the output has as many paragraphs as the input, and
  a paragraph of the output has the terminal marks of the input paragraph plus those
  inside the substituted texts of its sentences; the two numbers are equal when no first
  replacement has a terminal mark in it.
\<close>

theorem paragraphs_and_marks_preserved:
  assumes flags: "\<forall>t. \<forall>tok \<in> set (cut jb t). snd tok \<noteq> []"
    and ne: "\<forall>(k, vs) \<in> set syn. vs \<noteq> []"
  shows "\<exists>r. process syn jb text contrast = Inr r \<and>
    processed_text r =
      join_nl (map (\<lambda>para. concat (map (\<lambda>(t, m). substituted syn jb t @ [m]) (sentences para)))
        (split_nl text)) \<and>
    ((\<forall>t. concat (map fst (cut jb t)) = t) \<and> (\<forall>t. concat (lcut jb t) = t) \<and>
     (\<forall>(k, vs) \<in> set syn. 10 \<notin> set (hd vs)) \<longrightarrow>
       length (split_nl (processed_text r)) = length (split_nl text) \<and>
       map count_marks (split_nl (processed_text r)) =
         map (\<lambda>para. count_marks para +
                sum_list (map (\<lambda>(t, m). count_marks (substituted syn jb t)) (sentences para)))
           (split_nl text) \<and>
       ((\<forall>(k, vs) \<in> set syn. \<forall>c \<in> set (hd vs). \<not> is_mark c) \<longrightarrow>
          map count_marks (split_nl (processed_text r)) = map count_marks (split_nl text)))"
proof -
  let ?out = "\<lambda>para. concat (map (\<lambda>(t, m). substituted syn jb t @ [m]) (sentences para))"
  let ?extra = "\<lambda>para. sum_list (map (\<lambda>(t, m). count_marks (substituted syn jb t)) (sentences para))"
  from process_explicit [OF flags ne, of "text" contrast]
  obtain r where r: "process syn jb text contrast = Inr r"
    and t: "processed_text r = join_nl (map ?out (split_nl text))"
    by (cases contrast) auto
  have counts: "count_marks (?out para) = count_marks para + ?extra para" for para
    using paragraph_out_count_marks [of "sentences para" "substituted syn jb"] sentences_parts [of _ _ para]
    by (simp add: length_sentences)
  have rest: "length (split_nl (processed_text r)) = length (split_nl text) \<and>
       map count_marks (split_nl (processed_text r)) =
         map (\<lambda>para. count_marks para + ?extra para) (split_nl text) \<and>
       ((\<forall>(k, vs) \<in> set syn. \<forall>c \<in> set (hd vs). \<not> is_mark c) \<longrightarrow>
          map count_marks (split_nl (processed_text r)) = map count_marks (split_nl text))"
    if cut: "\<forall>t. concat (map fst (cut jb t)) = t" and lcut: "\<forall>t. concat (lcut jb t) = t"
      and nolf: "\<forall>(k, vs) \<in> set syn. 10 \<notin> set (hd vs)"
  proof -
    from ne nolf have table: "\<forall>(k, vs) \<in> set syn. vs \<noteq> [] \<and> (\<forall>c \<in> set (hd vs). c \<noteq> 10)"
      by fastforce
    have "10 \<notin> set (?out para)" if "para \<in> set (split_nl text)" for para
    proof (rule paragraph_out_no_line_feed)
      fix t m assume "(t, m) \<in> set (sentences para)"
      from sentences_parts [OF this] split_nl_no_nl [OF that]
      have m: "is_mark m" and tt: "\<forall>c \<in> set t. c \<noteq> 10" by auto
      from substituted_chars [OF flags table cut lcut tt] m
      show "is_mark m \<and> 10 \<notin> set (substituted syn jb t)" by auto
    qed
    then have "\<forall>p \<in> set (map ?out (split_nl text)). 10 \<notin> set p" by auto
    moreover have "map ?out (split_nl text) \<noteq> []" by (simp add: split_nl_not_Nil)
    ultimately have s: "split_nl (processed_text r) = map ?out (split_nl text)"
      unfolding t by (intro split_nl_join)
    have l: "length (split_nl (processed_text r)) = length (split_nl text)"
      by (simp add: s)
    have c: "map count_marks (split_nl (processed_text r)) =
         map (\<lambda>para. count_marks para + ?extra para) (split_nl text)"
      unfolding s by (simp add: counts comp_def)
    have e: "map count_marks (split_nl (processed_text r)) = map count_marks (split_nl text)"
      if free: "\<forall>(k, vs) \<in> set syn. \<forall>c \<in> set (hd vs). \<not> is_mark c"
    proof -
      from ne free have table': "\<forall>(k, vs) \<in> set syn. vs \<noteq> [] \<and> (\<forall>c \<in> set (hd vs). \<not> is_mark c)"
        by fastforce
      have "?extra para = 0" for para
      proof -
        have "count_marks (substituted syn jb t) = 0" if "(t, m) \<in> set (sentences para)" for t m
        proof -
          from sentences_parts [OF that] have "\<forall>c \<in> set t. \<not> is_mark c" by simp
          from substituted_chars [OF flags table' cut lcut this]
          show ?thesis by (simp add: count_marks_def filter_empty_conv)
        qed
        then show ?thesis by auto
      qed
      then show ?thesis unfolding c by simp
    qed
    from l c e show ?thesis by blast
  qed
  from r t rest show ?thesis by blast
qed

text \<open>
  With the table entry U+95EE U+9898 to U+7B54 U+6848 U+3002 (a replacement that ends
  with a terminal mark), the one-sentence paragraph U+95EE U+9898 U+3002 becomes
  U+7B54 U+6848 U+3002 U+3002: one mark in, two marks out.
\<close>

theorem marks_not_preserved_example:
  "process [([0x95EE, 0x9898], [[0x7B54, 0x6848, 0x3002]])]
     \<lparr>lcut = (\<lambda>t. [t]), cut = (\<lambda>t. [(t, ''n'')])\<rparr> [0x95EE, 0x9898, 0x3002] False =
     Inr (Text [0x7B54, 0x6848, 0x3002, 0x3002]) \<and>
   map count_marks (split_nl [0x95EE, 0x9898, 0x3002]) = [1] \<and>
   map count_marks (split_nl [0x7B54, 0x6848, 0x3002, 0x3002]) = [2]"
proof -
  have c: "clause_strip [0x95EE, 0x9898] = [0x95EE, 0x9898]"
    by (simp add: clause_strip_def clause_pattern_def)
  have s: "strip [0x95EE, 0x9898] = [0x95EE, 0x9898]" "strip [0x95EE, 0x9898, 0x3002] \<noteq> []"
    by (simp_all add: strip_def isspace_def)
  have k: "sorted_keys [([0x95EE, 0x9898], [[0x7B54, 0x6848, 0x3002]])] = [[0x95EE, 0x9898]]"
    by (simp add: sorted_keys_def)
  have d: "condense_sentence \<lparr>lcut = (\<lambda>t. [t]), cut = (\<lambda>t. [(t, ''n'')])\<rparr> [0x95EE, 0x9898] = Inr [0x95EE, 0x9898]"
    by (simp add: condense_sentence_def c ebind_def first_def build_condensed_def
        condensed_tokens_def connectors_def upt_rec)
  have r: "replace_words [([0x95EE, 0x9898], [[0x7B54, 0x6848, 0x3002]])]
      \<lparr>lcut = (\<lambda>t. [t]), cut = (\<lambda>t. [(t, ''n'')])\<rparr> [0x95EE, 0x9898] = Inr [0x7B54, 0x6848, 0x3002]"
    by (simp add: replace_words_def k startswith_def first_replacement_def first_def ebind_def)
  have p: "process [([0x95EE, 0x9898], [[0x7B54, 0x6848, 0x3002]])]
     \<lparr>lcut = (\<lambda>t. [t]), cut = (\<lambda>t. [(t, ''n'')])\<rparr> [0x95EE, 0x9898, 0x3002] False =
     Inr (Text [0x7B54, 0x6848, 0x3002, 0x3002])"
    by (simp add: process_def s is_mark_def marks_def d r ebind_def)
  show ?thesis
    by (simp add: p count_marks_def is_mark_def)
qed

lemma stub_substituted:
  "substituted [([0x732B, 0x5403, 0x9C7C], [[0x98DF, 0x7269]])]
     \<lparr>lcut = (\<lambda>t. [t]), cut = (\<lambda>t. [(t, ''n'')])\<rparr> [0x732B, 0x5403, 0x9C7C] = [0x98DF, 0x7269]"
  "substituted [([0x732B, 0x5403, 0x9C7C], [[0x98DF, 0x7269]])]
     \<lparr>lcut = (\<lambda>t. [t]), cut = (\<lambda>t. [(t, ''n'')])\<rparr> [0x7684] = []"
proof -
  have c: "clause_strip [0x732B, 0x5403, 0x9C7C] = [0x732B, 0x5403, 0x9C7C]" "clause_strip [0x7684] = [0x7684]"
    by (simp_all add: clause_strip_def clause_pattern_def)
  have s: "strip [0x732B, 0x5403, 0x9C7C] = [0x732B, 0x5403, 0x9C7C]" "strip [0x7684] = [0x7684]"
    by (simp_all add: strip_def isspace_def)
  have k: "sorted_keys [([0x732B, 0x5403, 0x9C7C], [[0x98DF, 0x7269]])] = [[0x732B, 0x5403, 0x9C7C]]"
    by (simp add: sorted_keys_def)
  show "substituted [([0x732B, 0x5403, 0x9C7C], [[0x98DF, 0x7269]])]
     \<lparr>lcut = (\<lambda>t. [t]), cut = (\<lambda>t. [(t, ''n'')])\<rparr> [0x732B, 0x5403, 0x9C7C] = [0x98DF, 0x7269]"
    by (simp add: substituted_def transform_def s c condense_sentence_def ebind_def first_def
        build_condensed_def condensed_tokens_def connectors_def upt_rec replace_words_def k
        startswith_def first_replacement_def)
  show "substituted [([0x732B, 0x5403, 0x9C7C], [[0x98DF, 0x7269]])]
     \<lparr>lcut = (\<lambda>t. [t]), cut = (\<lambda>t. [(t, ''n'')])\<rparr> [0x7684] = []"
    by (simp add: substituted_def transform_def s c condense_sentence_def ebind_def first_def
        build_condensed_def condensed_tokens_def connectors_def replace_words_def)
qed

theorem contrast_pairs_per_sentence_witness:
  "(\<exists>out. process [([0x732B, 0x5403, 0x9C7C], [[0x98DF, 0x7269]])]
       \<lparr>lcut = (\<lambda>t. [t]), cut = (\<lambda>t. [(t, ''n'')])\<rparr>
       [0x732B, 0x5403, 0x9C7C, 0x3002, 0x7684, 0xFF01, 0x5C3E] True =
     Inr (TextPairs out
       [([0x732B, 0x5403, 0x9C7C, 0x3002], [0x98DF, 0x7269, 0x3002])])) \<and>
   (\<exists>out. process [([0x732B, 0x5403, 0x9C7C], [[0x98DF, 0x7269]])]
       \<lparr>lcut = (\<lambda>t. [t]), cut = (\<lambda>t. [(t, ''n'')])\<rparr>
       [0x732B, 0x5403, 0x9C7C, 0x3002, 0x7684, 0xFF01, 0x5C3E] False = Inr (Text out))"
proof -
  have s: "strip [0x732B, 0x5403, 0x9C7C] = [0x732B, 0x5403, 0x9C7C]" "strip [0x7684] = [0x7684]"
    by (simp_all add: strip_def isspace_def)
  show ?thesis
    using contrast_pairs_per_sentence
      [of "\<lparr>lcut = (\<lambda>t. [t]), cut = (\<lambda>t. [(t, ''n'')])\<rparr>"
        "[([0x732B, 0x5403, 0x9C7C], [[0x98DF, 0x7269]])]"
        "[0x732B, 0x5403, 0x9C7C, 0x3002, 0x7684, 0xFF01, 0x5C3E]"]
    by (simp add: is_mark_def stub_substituted s)
qed

theorem trailing_text_dropped_witness:
  "process [] \<lparr>lcut = (\<lambda>t. [t]), cut = (\<lambda>t. [(t, ''n'')])\<rparr>
      [0x95EE, 0x9898, 0x3002, 0x5C3E, 0x5DF4, 10, 0x597D] True =
   process [] \<lparr>lcut = (\<lambda>t. [t]), cut = (\<lambda>t. [(t, ''n'')])\<rparr>
      [0x95EE, 0x9898, 0x3002, 10, 0x597D] True \<and>
   process [] \<lparr>lcut = (\<lambda>t. [t]), cut = (\<lambda>t. [(t, ''n'')])\<rparr> [0x5C3E, 0x5DF4] True =
     Inr (TextPairs [] [])"
  using trailing_text_dropped
    [of "[0x5C3E, 0x5DF4]" "[10, 0x597D]" "[]" "\<lparr>lcut = (\<lambda>t. [t]), cut = (\<lambda>t. [(t, ''n'')])\<rparr>"
      "[0x95EE, 0x9898, 0x3002]" True]
  by (simp add: is_mark_def)

lemma stub_substituted_mark:
  "substituted [([0x95EE, 0x9898], [[0x7B54, 0x6848, 0x3002]])]
     \<lparr>lcut = (\<lambda>t. [t]), cut = (\<lambda>t. [(t, ''n'')])\<rparr> [0x95EE, 0x9898] = [0x7B54, 0x6848, 0x3002]"
proof -
  have c: "clause_strip [0x95EE, 0x9898] = [0x95EE, 0x9898]"
    by (simp add: clause_strip_def clause_pattern_def)
  have s: "strip [0x95EE, 0x9898] = [0x95EE, 0x9898]"
    by (simp add: strip_def isspace_def)
  have k: "sorted_keys [([0x95EE, 0x9898], [[0x7B54, 0x6848, 0x3002]])] = [[0x95EE, 0x9898]]"
    by (simp add: sorted_keys_def)
  show ?thesis
    by (simp add: substituted_def transform_def s c condense_sentence_def ebind_def first_def
        build_condensed_def condensed_tokens_def connectors_def upt_rec replace_words_def k
        startswith_def first_replacement_def)
qed

theorem paragraphs_and_marks_preserved_witness:
  "(\<exists>r. process [([0x732B, 0x5403, 0x9C7C], [[0x98DF, 0x7269]])]
       \<lparr>lcut = (\<lambda>t. [t]), cut = (\<lambda>t. [(t, ''n'')])\<rparr>
       [0x732B, 0x5403, 0x9C7C, 0x3002, 0x7684, 0xFF01, 0x5C3E, 10, 10, 0x597D, 0x3002] False = Inr r \<and>
     processed_text r = [0x98DF, 0x7269, 0x3002, 0xFF01, 10, 10, 0x3002] \<and>
     length (split_nl (processed_text r)) = 3 \<and>
     map count_marks (split_nl (processed_text r)) = [2, 0, 1]) \<and>
   (\<exists>r. process [([0x95EE, 0x9898], [[0x7B54, 0x6848, 0x3002]])]
       \<lparr>lcut = (\<lambda>t. [t]), cut = (\<lambda>t. [(t, ''n'')])\<rparr> [0x95EE, 0x9898, 0x3002] False = Inr r \<and>
     length (split_nl (processed_text r)) = 1 \<and>
     map count_marks (split_nl (processed_text r)) = [2])"
proof -
  let ?jb = "\<lparr>lcut = (\<lambda>t. [t]), cut = (\<lambda>t. [(t, ''n'')])\<rparr> :: jieba"
  let ?syn = "[([0x732B, 0x5403, 0x9C7C], [[0x98DF, 0x7269]])] :: syn_table"
  let ?text = "[0x732B, 0x5403, 0x9C7C, 0x3002, 0x7684, 0xFF01, 0x5C3E, 10, 10, 0x597D, 0x3002] :: ustr"
  let ?syn' = "[([0x95EE, 0x9898], [[0x7B54, 0x6848, 0x3002]])] :: syn_table"
  let ?text' = "[0x95EE, 0x9898, 0x3002] :: ustr"
  have flags: "\<forall>t. \<forall>tok \<in> set (cut ?jb t). snd tok \<noteq> []" by simp
  have contract: "(\<forall>t. concat (map fst (cut ?jb t)) = t) \<and> (\<forall>t. concat (lcut ?jb t) = t)" by simp
  have ne: "\<forall>(k, vs) \<in> set ?syn. vs \<noteq> []" and ne': "\<forall>(k, vs) \<in> set ?syn'. vs \<noteq> []" by simp_all
  have nolf: "\<forall>(k, vs) \<in> set ?syn. 10 \<notin> set (hd vs)" and nolf': "\<forall>(k, vs) \<in> set ?syn'. 10 \<notin> set (hd vs)"
    by simp_all
  have free: "\<forall>(k, vs) \<in> set ?syn. \<forall>c \<in> set (hd vs). \<not> is_mark c" by (simp add: is_mark_def)
  have good: "strip [0x597D] = [0x597D]" "clause_strip [0x597D] = [0x597D]"
    by (simp_all add: strip_def isspace_def clause_strip_def clause_pattern_def)
  have hao: "substituted ?syn ?jb [0x597D] = []"
    by (simp add: substituted_def transform_def good condense_sentence_def ebind_def first_def
        build_condensed_def condensed_tokens_def connectors_def replace_words_def)
  have sp: "split_nl ?text = [[0x732B, 0x5403, 0x9C7C, 0x3002, 0x7684, 0xFF01, 0x5C3E], [], [0x597D, 0x3002]]"
    "split_nl ?text' = [?text']"
    by simp_all
  from paragraphs_and_marks_preserved [OF flags ne, of "?text" False] contract nolf free
  obtain r where r: "process ?syn ?jb ?text False = Inr r"
    "processed_text r =
      join_nl (map (\<lambda>para. concat (map (\<lambda>(t, m). substituted ?syn ?jb t @ [m]) (sentences para)))
        (split_nl ?text))"
    "length (split_nl (processed_text r)) = length (split_nl ?text)"
    "map count_marks (split_nl (processed_text r)) = map count_marks (split_nl ?text)"
    by blast
  from paragraphs_and_marks_preserved [OF flags ne', of "?text'" False] contract nolf'
  obtain r' where r': "process ?syn' ?jb ?text' False = Inr r'"
    "length (split_nl (processed_text r')) = length (split_nl ?text')"
    "map count_marks (split_nl (processed_text r')) =
         map (\<lambda>para. count_marks para +
                sum_list (map (\<lambda>(t, m). count_marks (substituted ?syn' ?jb t)) (sentences para)))
           (split_nl ?text')"
    by blast
  have a: "\<exists>r. process ?syn ?jb ?text False = Inr r \<and>
     processed_text r = [0x98DF, 0x7269, 0x3002, 0xFF01, 10, 10, 0x3002] \<and>
     length (split_nl (processed_text r)) = 3 \<and>
     map count_marks (split_nl (processed_text r)) = [2, 0, 1]"
    using r unfolding sp
    by (intro exI [of _ r]) (simp add: count_marks_def is_mark_def stub_substituted hao)
  have b: "\<exists>r. process ?syn' ?jb ?text' False = Inr r \<and>
     length (split_nl (processed_text r)) = 1 \<and>
     map count_marks (split_nl (processed_text r)) = [2]"
    using r' unfolding sp
    by (intro exI [of _ r']) (simp add: count_marks_def is_mark_def stub_substituted_mark)
  from a b show ?thesis ..
qed

end
